theory Spec2Isabelle
  imports Main
begin

section \<open>Strings and problems\<close>

text \<open>
  A JavaScript string is a sequence of UTF-16 code units.  The source text may contain
  the line terminators U+2028 and U+2029 and the white space of the Unicode space
  category, so a code unit is a natural number rather than an 8-bit character.
  \<open>str\<close> embeds an ASCII literal.
\<close>

type_synonym jsstring = "nat list"

definition str :: "string \<Rightarrow> jsstring" where
  "str s = map of_char s"

text \<open>A fix replaces \<open>source[start:end]\<close> by \<open>text\<close>.\<close>

record Fix =
  fix_range :: "int \<times> int"
  fix_text :: jsstring

record Suppression =
  kind :: jsstring
  justification :: jsstring

text \<open>
  \<open>LintMessage\<close> of \<open>shared/types\<close>, with the properties \<open>linter.ts\<close> reads or
  writes.  A property that may be absent (or \<open>undefined\<close>) is an option; \<open>ruleId\<close> is
  \<open>None\<close> for JavaScript's \<open>null\<close>.
\<close>

record LintMessage =
  ruleId :: "jsstring option"
  fatal :: "bool option"
  severity :: int
  message :: jsstring
  line :: "int option"
  column :: "int option"
  endLine :: "int option"
  endColumn :: "int option"
  nodeType :: "jsstring option"
  fix_prop :: "Fix option"
  suggestions :: "Fix list option"
  suppressions :: "Suppression list option"

section \<open>Tokens, comments and the merged stream (\<open>source-code.ts\<close>)\<close>

text \<open>
  A token or a comment, with the properties the functions below read: \<open>type\<close>,
  \<open>value\<close> and \<open>range\<close> (a pair of offsets).
\<close>

record Token =
  tok_type :: jsstring
  tok_value :: jsstring
  tok_range :: "int \<times> int"

definition range0 :: "Token \<Rightarrow> int" where
  "range0 t = fst (tok_range t)"

definition range1 :: "Token \<Rightarrow> int" where
  "range1 t = snd (tok_range t)"

text \<open>
  The \<open>while\<close> loop of \<open>sortedMerge\<close>, with its three variables as arguments.  Both
  array reads are in range: the first branch is taken either when the comments are
  exhausted (and then the loop condition gives a token) or under \<open>tokenIndex < tokens.length\<close>;
  the second only when \<open>commentIndex < comments.length\<close>.
\<close>

function sortedMerge_loop ::
  "Token list \<Rightarrow> Token list \<Rightarrow> nat \<Rightarrow> nat \<Rightarrow> Token list \<Rightarrow> Token list" where
  "sortedMerge_loop tokens comments tokenIndex commentIndex result =
     (if tokenIndex < length tokens \<or> commentIndex < length comments then
        if commentIndex \<ge> length comments \<or>
           (tokenIndex < length tokens \<and>
            range0 (tokens ! tokenIndex) < range0 (comments ! commentIndex))
        then sortedMerge_loop tokens comments (tokenIndex + 1) commentIndex
               (result @ [tokens ! tokenIndex])
        else sortedMerge_loop tokens comments tokenIndex (commentIndex + 1)
               (result @ [comments ! commentIndex])
      else result)"
  by pat_completeness auto
termination
  by (relation "measure (\<lambda>(tokens, comments, tokenIndex, commentIndex, result).
        (length tokens - tokenIndex) + (length comments - commentIndex))") auto

declare sortedMerge_loop.simps [simp del]

definition sortedMerge :: "Token list \<Rightarrow> Token list \<Rightarrow> Token list" where
  "sortedMerge tokens comments = sortedMerge_loop tokens comments 0 0 []"






section \<open>Directive comments (\<open>linter.ts\<close>)\<close>

text \<open>
  The characters \<open>\s\<close> matches in a regular expression with the \<open>u\<close> flag, which are also
  the ones \<open>String.prototype.trim\<close> removes: white space and line terminators.
\<close>

definition is_whitespace :: "nat \<Rightarrow> bool" where
  "is_whitespace c \<longleftrightarrow>
     c = 9 \<or> c = 10 \<or> c = 11 \<or> c = 12 \<or> c = 13 \<or> c = 32 \<or> c = 160 \<or> c = 5760 \<or>
     (8192 \<le> c \<and> c \<le> 8202) \<or> c = 8232 \<or> c = 8233 \<or> c = 8239 \<or> c = 8287 \<or>
     c = 12288 \<or> c = 65279"

definition hyphen :: nat where
  "hyphen = 45"

definition trim :: "jsstring \<Rightarrow> jsstring" where
  "trim s = rev (dropWhile is_whitespace (rev (dropWhile is_whitespace s)))"

text \<open>
  A match of \<open>/\s-{2,}\s/u\<close> at the beginning of \<open>s\<close>, as the length of the match.  The
  quantifier is greedy; giving back a dash cannot help, because the character after the
  shortened run would be a dash and not white space.
\<close>

definition separator_match :: "jsstring \<Rightarrow> nat option" where
  "separator_match s =
     (case s of
        [] \<Rightarrow> None
      | c # rest \<Rightarrow>
          if is_whitespace c then
            (let dashes = takeWhile (\<lambda>x. x = hyphen) rest;
                 after = dropWhile (\<lambda>x. x = hyphen) rest
             in if 2 \<le> length dashes then
                  (case after of
                     [] \<Rightarrow> None
                   | d # _ \<Rightarrow> if is_whitespace d then Some (length dashes + 2) else None)
                else None)
          else None)"

text \<open>
  \<open>/\s-{2,}\s/u.exec(value)\<close>: the leftmost match, as \<open>match.index\<close> and
  \<open>match[0].length\<close>; \<open>None\<close> is the \<open>null\<close> of no match.
\<close>

fun separator_exec :: "jsstring \<Rightarrow> nat \<Rightarrow> (nat \<times> nat) option" where
  "separator_exec [] index = None"
| "separator_exec (c # cs) index =
     (case separator_match (c # cs) of
        Some len \<Rightarrow> Some (index, len)
      | None \<Rightarrow> separator_exec cs (index + 1))"

text \<open>The result is the pair \<open>(directivePart, justificationPart)\<close>.\<close>

definition extractDirectiveComment :: "jsstring \<Rightarrow> jsstring \<times> jsstring" where
  "extractDirectiveComment v =
     (case separator_exec v 0 of
        None \<Rightarrow> (trim v, [])
      | Some (index, len) \<Rightarrow> (trim (take index v), trim (drop (index + len) v)))"

text \<open>
  What the source's pattern describes, by positions: at offset \<open>i\<close> of \<open>v\<close> stands a
  white space character, then exactly \<open>k \<ge> 2\<close> dashes, then a white space character.
\<close>

definition separator_at :: "jsstring \<Rightarrow> nat \<Rightarrow> nat \<Rightarrow> bool" where
  "separator_at v i k \<longleftrightarrow>
     2 \<le> k \<and> i + k + 1 < length v \<and> is_whitespace (v ! i) \<and>
     take k (drop (i + 1) v) = replicate k hyphen \<and> is_whitespace (v ! (i + k + 1))"

text \<open>
  The separator in the specification's words, \<open>\s--\s\<close>: white space, two dashes, white
  space, at offset \<open>i\<close>; and whether it occurs anywhere in \<open>v\<close>.
\<close>

definition two_dash_separator_at :: "jsstring \<Rightarrow> nat \<Rightarrow> bool" where
  "two_dash_separator_at v i \<longleftrightarrow>
     i + 3 < length v \<and> is_whitespace (v ! i) \<and> v ! (i + 1) = hyphen \<and>
     v ! (i + 2) = hyphen \<and> is_whitespace (v ! (i + 3))"

definition two_dash_separator_occurs :: "jsstring \<Rightarrow> bool" where
  "two_dash_separator_occurs v \<longleftrightarrow> list_ex (two_dash_separator_at v) [0..<length v]"

section \<open>The position index (\<open>source-code.ts\<close>)\<close>

text \<open>
  The exceptions of the functions modelled here.  A \<open>RangeError\<close> of the position index
  carries the numbers its message is formatted from instead of the formatted text.
\<close>

datatype range_error =
    IndexOutOfRange int nat
  | LineNotOneBased int
  | LineOutOfRange int nat
  | ColumnOutOfRange int int int

datatype js_error =
    Error jsstring
  | TypeError jsstring
  | RangeError range_error

definition is_linebreak :: "nat \<Rightarrow> bool" where
  "is_linebreak c \<longleftrightarrow> c = 10 \<or> c = 13 \<or> c = 8232 \<or> c = 8233"

text \<open>
  Modelled from the spec: \<open>astUtils.createGlobalLinebreakMatcher\<close> (\<open>shared/ast-utils\<close>
  is not among the sources).  "The line table is built by scanning for CR, LF, CRLF,
  U+2028, U+2029": the successive matches of the global matcher in the text, each as
  \<open>match.index\<close> and \<open>match[0].length\<close>, with CRLF one match of length two.  \<open>pos\<close> is the
  offset of the remaining text.
\<close>

fun linebreak_matches :: "jsstring \<Rightarrow> nat \<Rightarrow> (nat \<times> nat) list" where
  "linebreak_matches [] pos = []"
| "linebreak_matches [c] pos = (if is_linebreak c then [(pos, 1)] else [])"
| "linebreak_matches (c # d # cs) pos =
     (if c = 13 \<and> d = 10 then (pos, 2) # linebreak_matches cs (pos + 2)
      else if is_linebreak c then (pos, 1) # linebreak_matches (d # cs) (pos + 1)
      else linebreak_matches (d # cs) (pos + 1))"

text \<open>\<open>s.slice(a, b)\<close> for offsets \<open>0 \<le> a\<close>, \<open>0 \<le> b\<close>; empty when \<open>b \<le> a\<close>.\<close>

definition slice :: "jsstring \<Rightarrow> nat \<Rightarrow> nat \<Rightarrow> jsstring" where
  "slice s a b = take (b - a) (drop a s)"

record SourceCode =
  hasBOM :: bool
  sc_text :: jsstring
  tokensAndComments :: "Token list"
  lines :: "jsstring list"
  lineStartIndices :: "nat list"

text \<open>
  One round of the constructor's \<open>while ((match = lineEndingPattern.exec(this.text)))\<close>
  loop, on the pair \<open>(this.lines, this.lineStartIndices)\<close>.
\<close>

definition line_step ::
  "jsstring \<Rightarrow> jsstring list \<times> nat list \<Rightarrow> nat \<times> nat \<Rightarrow> jsstring list \<times> nat list" where
  "line_step text acc m =
     (case acc of (ls, starts) \<Rightarrow>
        case m of (index, len) \<Rightarrow>
          (ls @ [slice text (last starts) index], starts @ [index + len]))"

text \<open>
  The constructor, from the text, \<open>ast.tokens\<close> and \<open>ast.comments\<close>.  The parameter
  \<open>shebangPattern\<close> stands for \<open>this.text.match(astUtils.shebangPattern)\<close> (not among the
  sources): the first capture group of the match, if any.  A shebang only renames the
  type of the first comment.
\<close>

definition newSourceCode ::
  "(jsstring \<Rightarrow> jsstring option) \<Rightarrow> jsstring \<Rightarrow> Token list \<Rightarrow> Token list \<Rightarrow> SourceCode" where
  "newSourceCode shebangPattern text tokens comments =
     (let bom = (case text of [] \<Rightarrow> False | c # _ \<Rightarrow> c = 65279);
          this_text = (if bom then drop 1 text else text);
          hasShebang = (case shebangPattern this_text of
                          None \<Rightarrow> False
                        | Some captured \<Rightarrow>
                            (case comments of [] \<Rightarrow> False | c # _ \<Rightarrow> tok_value c = captured));
          comments' = (if hasShebang
                       then (hd comments)\<lparr>tok_type := str ''Shebang''\<rparr> # tl comments
                       else comments);
          acc = foldl (line_step this_text) ([], [0]) (linebreak_matches this_text 0)
      in \<lparr>hasBOM = bom,
          sc_text = this_text,
          tokensAndComments = sortedMerge tokens comments',
          lines = fst acc @ [slice this_text (last (snd acc)) (length this_text)],
          lineStartIndices = snd acc\<rparr>)"

text \<open>
  \<open>Array.prototype.findIndex\<close>, \<open>-1\<close> when no element satisfies the predicate, and an array
  read \<open>xs[i]\<close>, \<open>None\<close> for the \<open>undefined\<close> of an index out of range.
\<close>

fun findIndex :: "('a \<Rightarrow> bool) \<Rightarrow> 'a list \<Rightarrow> int" where
  "findIndex P [] = - 1"
| "findIndex P (x # xs) =
     (if P x then 0 else (let r = findIndex P xs in if r = - 1 then - 1 else r + 1))"

definition js_nth :: "'a list \<Rightarrow> int \<Rightarrow> 'a option" where
  "js_nth xs i = (if 0 \<le> i \<and> i < int (length xs) then Some (xs ! nat i) else None)"

text \<open>
  \<open>getLocFromIndex\<close>, for a numeric \<open>index\<close>; the result is \<open>(line, column)\<close>.  Comparing
  with \<open>undefined\<close> is false, and subtracting \<open>undefined\<close> gives \<open>NaN\<close>; neither happens on
  an object the constructor built (the line table starts with \<open>0\<close>), and the model marks
  a \<open>NaN\<close> column, and the read of \<open>length\<close> on a missing last line, by a \<open>TypeError\<close>.
\<close>

definition getLocFromIndex :: "SourceCode \<Rightarrow> int \<Rightarrow> js_error + (int \<times> int)" where
  "getLocFromIndex sc index =
     (if index < 0 \<or> index > int (length (sc_text sc))
      then Inl (RangeError (IndexOutOfRange index (length (sc_text sc))))
      else if index = int (length (sc_text sc)) then
        (case js_nth (lines sc) (int (length (lines sc)) - 1) of
           None \<Rightarrow> Inl (TypeError (str ''Cannot read properties of undefined''))
         | Some l \<Rightarrow> Inr (int (length (lines sc)), int (length l)))
      else
        (let starts = lineStartIndices sc;
             lineNumber =
               (case js_nth starts (int (length starts) - 1) of
                  Some s \<Rightarrow> if index \<ge> int s then int (length starts)
                            else findIndex (\<lambda>el. index < int el) starts
                | None \<Rightarrow> findIndex (\<lambda>el. index < int el) starts)
         in case js_nth starts (lineNumber - 1) of
              Some s \<Rightarrow> Inr (lineNumber, index - int s)
            | None \<Rightarrow> Inl (TypeError (str ''NaN''))))"

text \<open>
  \<open>getIndexFromLoc\<close>, for a \<open>loc\<close> with numeric \<open>line\<close> and \<open>column\<close>.  Both reads of the
  line table are in range after the two checks on the line.
\<close>

definition getIndexFromLoc :: "SourceCode \<Rightarrow> int \<times> int \<Rightarrow> js_error + int" where
  "getIndexFromLoc sc loc =
     (case loc of (loc_line, loc_column) \<Rightarrow>
        let starts = lineStartIndices sc in
        if loc_line \<le> 0 then Inl (RangeError (LineNotOneBased loc_line))
        else if loc_line > int (length starts)
        then Inl (RangeError (LineOutOfRange loc_line (length starts)))
        else
          (let lineStartIndex = int (starts ! nat (loc_line - 1));
               lineEndIndex = (if loc_line = int (length starts)
                               then int (length (sc_text sc))
                               else int (starts ! nat loc_line));
               positionIndex = lineStartIndex + loc_column
           in if (loc_line = int (length starts) \<and> positionIndex > lineEndIndex) \<or>
                 (loc_line < int (length starts) \<and> positionIndex \<ge> lineEndIndex)
              then Inl (RangeError
                     (ColumnOutOfRange loc_column loc_line (lineEndIndex - lineStartIndex)))
              else Inr positionIndex))"

text \<open>
  The end offset of a match, and the shape the constructor gives the line table: it
  starts with \<open>0\<close>, is strictly increasing and bounded by the length of the text, there
  are as many lines as line starts, and the last line is the rest of the text.
\<close>

definition match_end :: "nat \<times> nat \<Rightarrow> nat" where
  "match_end m = fst m + snd m"

definition line_table_ok :: "SourceCode \<Rightarrow> bool" where
  "line_table_ok sc \<longleftrightarrow>
     lineStartIndices sc \<noteq> [] \<and> hd (lineStartIndices sc) = 0 \<and>
     sorted_wrt (<) (lineStartIndices sc) \<and>
     list_all (\<lambda>s. s \<le> length (sc_text sc)) (lineStartIndices sc) \<and>
     length (lines sc) = length (lineStartIndices sc) \<and>
     length (last (lines sc)) = length (sc_text sc) - last (lineStartIndices sc)"

section \<open>Token store cursors (\<open>token-store\<close>)\<close>

text \<open>
  The cursor classes of the sources as one datatype; the first field of each is the
  \<open>current\<close> slot (\<open>None\<close> for \<open>null\<close> and for the \<open>undefined\<close> of a read out of range).
  \<open>ForwardTokenCursor\<close> has \<open>tokens\<close>, \<open>index\<close> and \<open>indexEnd\<close>; a decorator has the cursor
  it decorates and its predicate or count.
\<close>

datatype cursor =
    ForwardTokenCursor "Token option" "Token list" int int
  | FilterCursor "Token option" cursor "Token option \<Rightarrow> bool"
  | SkipCursor "Token option" cursor int
  | LimitCursor "Token option" cursor int

fun current :: "cursor \<Rightarrow> Token option" where
  "current (ForwardTokenCursor cur tokens index indexEnd) = cur"
| "current (FilterCursor cur c predicate) = cur"
| "current (SkipCursor cur c n) = cur"
| "current (LimitCursor cur c n) = cur"

text \<open>The number of tokens the underlying base cursor can still deliver.\<close>

fun remaining :: "cursor \<Rightarrow> nat" where
  "remaining (ForwardTokenCursor cur tokens index indexEnd) = nat (indexEnd - index + 1)"
| "remaining (FilterCursor cur c predicate) = remaining c"
| "remaining (SkipCursor cur c n) = remaining c"
| "remaining (LimitCursor cur c n) = remaining c"

text \<open>
  \<open>moveNext\<close> of each class, returning the result and the cursor after the call.  A
  decorator's \<open>super.moveNext()\<close> is \<open>DecorativeCursor.moveNext\<close>: it moves the decorated
  cursor and copies its \<open>current\<close>.  The \<open>while\<close> loops of \<open>FilterCursor\<close> and \<open>SkipCursor\<close>
  are the recursive calls.
\<close>

function moveNext :: "cursor \<Rightarrow> bool \<times> cursor" where
  "moveNext (ForwardTokenCursor cur tokens index indexEnd) =
     (if index \<le> indexEnd
      then (True, ForwardTokenCursor (js_nth tokens index) tokens (index + 1) indexEnd)
      else (False, ForwardTokenCursor cur tokens index indexEnd))"
| "moveNext (FilterCursor cur c predicate) =
     (case moveNext c of (retv, c') \<Rightarrow>
        if retv then
          if predicate (current c') then (True, FilterCursor (current c') c' predicate)
          else moveNext (FilterCursor (current c') c' predicate)
        else (False, FilterCursor (current c') c' predicate))"
| "moveNext (SkipCursor cur c n) =
     (if n > 0 then
        (case moveNext c of (retv, c') \<Rightarrow>
           if \<not> retv then (False, SkipCursor (current c') c' (n - 1))
           else moveNext (SkipCursor (current c') c' (n - 1)))
      else
        (case moveNext c of (retv, c') \<Rightarrow> (retv, SkipCursor (current c') c' n)))"
| "moveNext (LimitCursor cur c n) =
     (if n > 0 then
        (case moveNext c of (retv, c') \<Rightarrow> (retv, LimitCursor (current c') c' (n - 1)))
      else (False, LimitCursor cur c n))"
  by pat_completeness auto


lemma moveNext_remaining:
  "moveNext_dom c \<Longrightarrow>
     remaining (snd (moveNext c)) \<le> remaining c \<and>
     (fst (moveNext c) \<longrightarrow> remaining (snd (moveNext c)) < remaining c)"
proof (induction c rule: moveNext.pinduct)
  case (1 cur tokens index indexEnd)
  have "nat (indexEnd - index) \<le> nat (indexEnd - index + 1)" by arith
  moreover have "index \<le> indexEnd \<Longrightarrow> nat (indexEnd - index) < nat (indexEnd - index + 1)" by arith
  ultimately show ?case using 1 by (auto simp: moveNext.psimps)
next
  case (2 cur c predicate)
  obtain retv c' where m: "moveNext c = (retv, c')" by (cases "moveNext c")
  show ?case
  proof (cases retv)
    case False
    with m 2(1,2) show ?thesis by (simp add: moveNext.psimps)
  next
    case True
    note ih1 = 2(2) [unfolded m, simplified]
    show ?thesis
    proof (cases "predicate (current c')")
      case p: True
      with m True 2(1) ih1 show ?thesis by (simp add: moveNext.psimps)
    next
      case np: False
      from 2(3) [OF m [symmetric] True np] m True np 2(1) ih1 show ?thesis
        by (simp add: moveNext.psimps)
    qed
  qed
next
  case (3 cur c n)
  obtain retv c' where m: "moveNext c = (retv, c')" by (cases "moveNext c")
  show ?case
  proof (cases "n > 0")
    case pos: True
    note ih1 = 3(2) [OF pos, unfolded m, simplified]
    show ?thesis
    proof (cases retv)
      case False
      with m pos 3(1) ih1 show ?thesis by (simp add: moveNext.psimps)
    next
      case True
      from 3(3) [OF pos m [symmetric]] True m pos 3(1) ih1 show ?thesis
        by (simp add: moveNext.psimps)
    qed
  next
    case npos: False
    note ih = 3(4) [OF npos, unfolded m, simplified]
    with m npos 3(1) show ?thesis by (simp add: moveNext.psimps)
  qed
next
  case (4 cur c n)
  obtain retv c' where m: "moveNext c = (retv, c')" by (cases "moveNext c")
  show ?case
  proof (cases "n > 0")
    case pos: True
    note ih = 4(2) [OF pos, unfolded m, simplified]
    with m pos 4(1) show ?thesis by (simp add: moveNext.psimps)
  next
    case False
    with 4(1) show ?thesis by (simp add: moveNext.psimps)
  qed
qed

lemma moveNext_True_remaining:
  "moveNext_dom c \<Longrightarrow> (True, y) = moveNext c \<Longrightarrow> remaining y < remaining c"
  using moveNext_remaining [of c] by (cases "moveNext c") auto

termination moveNext
proof (relation "measures [remaining, size]", goal_cases)
  case 1
  show ?case by simp
next
  case 2
  show ?case by simp
next
  case (3 cur c predicate x y)
  then show ?case using moveNext_True_remaining [of c y] by simp
next
  case 4
  show ?case by simp
next
  case (5 cur c n x y)
  then show ?case using moveNext_True_remaining [of c y] by simp
next
  case 6
  show ?case by simp
next
  case 7
  show ?case by simp
qed

declare moveNext.simps [simp del]

text \<open>The same bound for the total function: a successful move consumes a token.\<close>

lemma moveNext_measure:
  "remaining (snd (moveNext c)) \<le> remaining c \<and>
   (fst (moveNext c) \<longrightarrow> remaining (snd (moveNext c)) < remaining c)"
proof (induction c rule: moveNext.induct)
  case (1 cur tokens index indexEnd)
  have "nat (indexEnd - index) \<le> nat (indexEnd - index + 1)" by arith
  moreover have "index \<le> indexEnd \<Longrightarrow> nat (indexEnd - index) < nat (indexEnd - index + 1)" by arith
  ultimately show ?case by (auto simp: moveNext.simps)
next
  case (2 cur c predicate)
  obtain retv c' where m: "moveNext c = (retv, c')" by (cases "moveNext c")
  show ?case
  proof (cases retv)
    case False
    with m 2(1) show ?thesis by (simp add: moveNext.simps)
  next
    case True
    note ih1 = 2(1) [unfolded m, simplified]
    show ?thesis
    proof (cases "predicate (current c')")
      case p: True
      with m True ih1 show ?thesis by (simp add: moveNext.simps)
    next
      case np: False
      from 2(2) [OF m [symmetric] True np] m True np ih1 show ?thesis
        by (simp add: moveNext.simps)
    qed
  qed
next
  case (3 cur c n)
  obtain retv c' where m: "moveNext c = (retv, c')" by (cases "moveNext c")
  show ?case
  proof (cases "n > 0")
    case pos: True
    note ih1 = 3(1) [OF pos, unfolded m, simplified]
    show ?thesis
    proof (cases retv)
      case False
      with m pos ih1 show ?thesis by (simp add: moveNext.simps)
    next
      case True
      from 3(2) [OF pos m [symmetric]] True m pos ih1 show ?thesis
        by (simp add: moveNext.simps)
    qed
  next
    case npos: False
    note ih = 3(3) [OF npos, unfolded m, simplified]
    with m npos show ?thesis by (simp add: moveNext.simps)
  qed
next
  case (4 cur c n)
  obtain retv c' where m: "moveNext c = (retv, c')" by (cases "moveNext c")
  show ?case
  proof (cases "n > 0")
    case pos: True
    note ih = 4(1) [OF pos, unfolded m, simplified]
    with m pos show ?thesis by (simp add: moveNext.simps)
  next
    case False
    then show ?thesis by (simp add: moveNext.simps)
  qed
qed

lemma moveNext_True_less: "(True, y) = moveNext c \<Longrightarrow> remaining y < remaining c"
  using moveNext_measure [of c] by (cases "moveNext c") auto

text \<open>
  \<open>Cursor.getAllTokens\<close> and \<open>Cursor.getOneToken\<close>, the methods of the base class that the
  decorators inherit: the \<open>while (this.moveNext())\<close> loop pushes \<open>this.current\<close>.
\<close>

function getAllTokens_loop :: "cursor \<Rightarrow> Token option list \<Rightarrow> Token option list" where
  "getAllTokens_loop c tokens =
     (case moveNext c of (retv, c') \<Rightarrow>
        if retv then getAllTokens_loop c' (tokens @ [current c']) else tokens)"
  by pat_completeness auto
termination
proof (relation "measure (\<lambda>(c, tokens). remaining c)", goal_cases)
  case 1
  show ?case by simp
next
  case (2 c tokens x y)
  then have "remaining y < remaining c" using moveNext_True_less [of y c] by simp
  then show ?case by simp
qed

declare getAllTokens_loop.simps [simp del]

definition Cursor_getAllTokens :: "cursor \<Rightarrow> Token option list" where
  "Cursor_getAllTokens c = getAllTokens_loop c []"

definition Cursor_getOneToken :: "cursor \<Rightarrow> Token option" where
  "Cursor_getOneToken c = (case moveNext c of (retv, c') \<Rightarrow> if retv then current c' else None)"

text \<open>
  \<open>Array.prototype.slice(start, end)\<close> with its treatment of negative and oversized
  arguments, and the two methods \<open>ForwardTokenCursor\<close> overrides "for performance".
\<close>

definition js_slice :: "'a list \<Rightarrow> int \<Rightarrow> int \<Rightarrow> 'a list" where
  "js_slice xs start end' =
     (let len = int (length xs);
          k = (if start < 0 then max (len + start) 0 else min start len);
          final = (if end' < 0 then max (len + end') 0 else min end' len)
      in take (nat (final - k)) (drop (nat k) xs))"

fun getAllTokens :: "cursor \<Rightarrow> Token option list" where
  "getAllTokens (ForwardTokenCursor cur tokens index indexEnd) =
     map Some (js_slice tokens index (indexEnd + 1))"
| "getAllTokens c = Cursor_getAllTokens c"

fun getOneToken :: "cursor \<Rightarrow> Token option" where
  "getOneToken (ForwardTokenCursor cur tokens index indexEnd) =
     (if index \<le> indexEnd then js_nth tokens index else None)"
| "getOneToken c = Cursor_getOneToken c"

text \<open>
  \<open>utils.getFirstIndex\<close> and \<open>utils.getLastIndex\<close>; \<open>indexMap\<close> is the object from
  locations to indices, \<open>loc in indexMap\<close> the test that the key is present.
\<close>

definition getFirstIndex :: "Token list \<Rightarrow> (int \<rightharpoonup> int) \<Rightarrow> int \<Rightarrow> int" where
  "getFirstIndex tokens indexMap startLoc =
     (case indexMap startLoc of
        Some i \<Rightarrow> i
      | None \<Rightarrow>
          (case indexMap (startLoc - 1) of
             Some index \<Rightarrow>
               (case js_nth tokens index of
                  Some token \<Rightarrow> if range0 token \<ge> startLoc then index else index + 1
                | None \<Rightarrow> index + 1)
           | None \<Rightarrow> 0))"

definition getLastIndex :: "Token list \<Rightarrow> (int \<rightharpoonup> int) \<Rightarrow> int \<Rightarrow> int" where
  "getLastIndex tokens indexMap endLoc =
     (case indexMap endLoc of
        Some i \<Rightarrow> i - 1
      | None \<Rightarrow>
          (case indexMap (endLoc - 1) of
             Some index \<Rightarrow>
               (case js_nth tokens index of
                  Some token \<Rightarrow> if range1 token > endLoc then index - 1 else index
                | None \<Rightarrow> index)
           | None \<Rightarrow> int (length tokens) - 1))"

definition new_ForwardTokenCursor ::
  "Token list \<Rightarrow> Token list \<Rightarrow> (int \<rightharpoonup> int) \<Rightarrow> int \<Rightarrow> int \<Rightarrow> cursor" where
  "new_ForwardTokenCursor tokens comments indexMap startLoc endLoc =
     ForwardTokenCursor None tokens
       (getFirstIndex tokens indexMap startLoc) (getLastIndex tokens indexMap endLoc)"

text \<open>
  \<open>CursorFactory\<close>: its two fields are the classes of the base cursors, here their
  constructors.  Of the four base cursor classes only \<open>ForwardTokenCursor\<close> is among the
  sources, so the factories \<open>forward\<close> and \<open>backward\<close> are not defined and a factory is
  an argument.
\<close>

record CursorFactory =
  TokenCursor :: "Token list \<Rightarrow> Token list \<Rightarrow> (int \<rightharpoonup> int) \<Rightarrow> int \<Rightarrow> int \<Rightarrow> cursor"
  TokenCommentCursor :: "Token list \<Rightarrow> Token list \<Rightarrow> (int \<rightharpoonup> int) \<Rightarrow> int \<Rightarrow> int \<Rightarrow> cursor"

definition createBaseCursor ::
  "CursorFactory \<Rightarrow> Token list \<Rightarrow> Token list \<Rightarrow> (int \<rightharpoonup> int) \<Rightarrow> int \<Rightarrow> int \<Rightarrow> bool \<Rightarrow> cursor" where
  "createBaseCursor factory tokens comments indexMap startLoc endLoc includeComments =
     (if includeComments then TokenCommentCursor factory else TokenCursor factory)
       tokens comments indexMap startLoc endLoc"

text \<open>
  \<open>createCursor\<close>; \<open>filter\<close> is \<open>None\<close> for \<open>null\<close>.  A new decorator starts with
  \<open>current = null\<close>.
\<close>

definition createCursor ::
  "CursorFactory \<Rightarrow> Token list \<Rightarrow> Token list \<Rightarrow> (int \<rightharpoonup> int) \<Rightarrow> int \<Rightarrow> int \<Rightarrow> bool \<Rightarrow>
     (Token option \<Rightarrow> bool) option \<Rightarrow> int \<Rightarrow> int \<Rightarrow> cursor" where
  "createCursor factory tokens comments indexMap startLoc endLoc includeComments
       filter_opt skip count =
     (let cursor0 = createBaseCursor factory tokens comments indexMap startLoc endLoc
                      includeComments;
          cursor1 = (case filter_opt of
                       Some predicate \<Rightarrow> FilterCursor None cursor0 predicate
                     | None \<Rightarrow> cursor0);
          cursor2 = (if skip \<ge> 1 then SkipCursor None cursor1 skip else cursor1);
          cursor3 = (if count \<ge> 0 then LimitCursor None cursor2 count else cursor2)
      in cursor3)"

section \<open>Running the rules (\<open>linter.ts\<close>)\<close>

text \<open>
  An error thrown while linting, with the properties the linter adds to it on the way
  out: \<open>ruleId\<close> (by the wrapper of a listener) and the start line of \<open>currentNode\<close>.
\<close>

record lint_exception =
  exn_message :: jsstring
  exn_ruleId :: "jsstring option"
  exn_currentNode_line :: "int option"

definition new_Error :: "jsstring \<Rightarrow> lint_exception" where
  "new_Error msg = \<lparr>exn_message = msg, exn_ruleId = None, exn_currentNode_line = None\<rparr>"

text \<open>An AST node: its type, the line it starts on and its children in visiting order.\<close>

datatype ASTNode = ASTNode jsstring int "ASTNode list"

fun node_type :: "ASTNode \<Rightarrow> jsstring" where
  "node_type (ASTNode t l cs) = t"

fun node_line :: "ASTNode \<Rightarrow> int" where
  "node_line (ASTNode t l cs) = l"

text \<open>
  The queue \<open>runRules\<close> fills from \<open>Traverser.traverse\<close>: \<open>enter\<close> pushes the node with
  \<open>isEntering: true\<close>, \<open>leave\<close> with \<open>isEntering: false\<close>, the children in between.
\<close>

fun nodeQueue_of :: "ASTNode \<Rightarrow> (bool \<times> ASTNode) list" where
  "nodeQueue_of (ASTNode t l cs) =
     (True, ASTNode t l cs) # concat (map nodeQueue_of cs) @ [(False, ASTNode t l cs)]"

fun join :: "jsstring \<Rightarrow> jsstring list \<Rightarrow> jsstring" where
  "join sep [] = []"
| "join sep [x] = x"
| "join sep (x # y # ys) = x @ sep @ join sep (y # ys)"

text \<open>
  \<open>createMissingRuleMessage\<close>; \<open>replacements\<close> is \<open>ruleReplacements.rules\<close> of
  \<open>conf/replacements.json\<close>, which is not among the sources.
\<close>

definition createMissingRuleMessage :: "(jsstring \<rightharpoonup> jsstring list) \<Rightarrow> jsstring \<Rightarrow> jsstring" where
  "createMissingRuleMessage replacements rule_id =
     (case replacements rule_id of
        Some names \<Rightarrow>
          str ''Rule '' @ [39] @ rule_id @ [39] @ str '' was removed and replaced by: '' @
          join (str '', '') names
      | None \<Rightarrow>
          str ''Definition for rule '' @ [39] @ rule_id @ [39] @ str '' was not found.'')"

text \<open>A source location \<open>{ start: { line, column }, end: { line, column } }\<close>.\<close>

type_synonym SourceLocation = "(int \<times> int) \<times> (int \<times> int)"

definition DEFAULT_ERROR_LOC :: SourceLocation where
  "DEFAULT_ERROR_LOC = ((1, 0), (1, 1))"

text \<open>
  The argument of \<open>createLintingProblem\<close>; a property left out is \<open>None\<close> and takes the
  default of the destructuring.  The default message is computed from \<open>options.ruleId\<close>,
  which formats as \<open>undefined\<close> when left out.
\<close>

record LintingProblemOptions =
  opt_ruleId :: "jsstring option"
  opt_loc :: "SourceLocation option"
  opt_message :: "jsstring option"
  opt_severity :: "int option"

definition createLintingProblem ::
  "(jsstring \<rightharpoonup> jsstring list) \<Rightarrow> LintingProblemOptions \<Rightarrow> LintMessage" where
  "createLintingProblem replacements options =
     (let loc = (case opt_loc options of Some l \<Rightarrow> l | None \<Rightarrow> DEFAULT_ERROR_LOC);
          msg = (case opt_message options of
                   Some m \<Rightarrow> m
                 | None \<Rightarrow> createMissingRuleMessage replacements
                             (case opt_ruleId options of Some r \<Rightarrow> r | None \<Rightarrow> str ''undefined''));
          sev = (case opt_severity options of Some s \<Rightarrow> s | None \<Rightarrow> 2)
      in \<lparr>ruleId = opt_ruleId options,
          fatal = None,
          severity = sev,
          message = msg,
          line = Some (fst (fst loc)),
          column = Some (snd (fst loc) + 1),
          endLine = Some (fst (snd loc)),
          endColumn = Some (snd (snd loc) + 1),
          nodeType = None,
          fix_prop = None,
          suggestions = None,
          suppressions = None\<rparr>)"

text \<open>
  What a listener does when the emitter calls it, as far as \<open>runRules\<close> sees it: it calls
  \<open>context.report\<close> some times and may throw.  \<open>Report\<close> carries the problem the report
  translator (not among the sources) makes of the arguments.
\<close>

datatype listener_action = Report LintMessage | Throw lint_exception

type_synonym listener = "ASTNode \<Rightarrow> listener_action list"

text \<open>
  What \<open>rule.create\<close> returns.  \<open>Object.keys\<close> of a boolean, a number or a function without
  own properties is empty; of an object it is its keys, here the selectors with their
  listeners.
\<close>

datatype ListenersValue =
    JsUndefined
  | JsNull
  | JsBoolean bool
  | JsNumber int
  | JsFunction
  | JsObject "(jsstring \<times> listener) list"

fun Object_entries :: "ListenersValue \<Rightarrow> (jsstring \<times> listener) list" where
  "Object_entries (JsObject kvs) = kvs"
| "Object_entries v = []"

record RuleContext =
  ctx_id :: jsstring
  ctx_options :: "jsstring list"
  ctx_filename :: jsstring

text \<open>
  A rule: the parts of \<open>meta\<close> that \<open>report\<close> tests for truth, and \<open>create\<close>, which returns
  a value or throws.
\<close>

record Rule =
  meta_fixable :: bool
  meta_hasSuggestions :: bool
  meta_docs_suggestion :: bool
  create :: "RuleContext \<Rightarrow> lint_exception + ListenersValue"

text \<open>
  An entry of \<open>configuredRules\<close>: the severity \<open>ConfigOps.getRuleSeverity\<close> (of the package
  \<open>@eslint/eslintrc\<close>) gives for it, and the options \<open>getRuleOptions\<close> takes from it.
  The object itself is the list of its entries in the order of \<open>Object.keys\<close>.
\<close>

record RuleEntry =
  entry_severity :: int
  entry_options :: "jsstring list"

text \<open>A listener registered with the emitter by \<open>emitter.on(selector, ...)\<close>.\<close>

record Registration =
  reg_selector :: jsstring
  reg_ruleId :: jsstring
  reg_rule :: Rule
  reg_listener :: listener

text \<open>
  The log of what has run: the rule ids \<open>create\<close> was called for and the listeners the
  emitter called (rule id and selector), in order.  The source keeps no such record;
  the model writes it where the source makes the call.
\<close>

record LintTrace =
  createCalls :: "jsstring list"
  listenerCalls :: "(jsstring \<times> jsstring) list"

text \<open>\<open>createRuleListeners\<close>: an error of \<open>create\<close> is thrown on with a longer message.\<close>

definition createRuleListeners :: "Rule \<Rightarrow> RuleContext \<Rightarrow> lint_exception + ListenersValue" where
  "createRuleListeners rule ruleContext =
     (case create rule ruleContext of
        Inl ex \<Rightarrow>
          Inl (ex\<lparr>exn_message :=
                 str ''Error while loading rule '' @ [39] @ ctx_id ruleContext @ [39] @
                 str '': '' @ exn_message ex\<rparr>)
      | Inr v \<Rightarrow> Inr v)"

text \<open>
  The variables of \<open>runRules\<close> that the callback of
  \<open>Object.keys(configuredRules).forEach\<close> changes.
\<close>

record RunState =
  lintingProblems :: "LintMessage list"
  emitter :: "Registration list"
  run_trace :: LintTrace

text \<open>
  The body of that callback, for one rule id.  The result is the error thrown, if any,
  and the variables as they are then.
\<close>

definition runRules_rule ::
  "(jsstring \<rightharpoonup> Rule) \<Rightarrow> (jsstring \<rightharpoonup> jsstring list) \<Rightarrow> jsstring \<Rightarrow>
     RunState \<Rightarrow> jsstring \<times> RuleEntry \<Rightarrow> lint_exception option \<times> RunState" where
  "runRules_rule ruleMapper replacements filename st kv =
     (case kv of (rule_id, entry) \<Rightarrow>
        if entry_severity entry = 0 then (None, st)
        else
          (case ruleMapper rule_id of
             None \<Rightarrow>
               (None, st\<lparr>lintingProblems := lintingProblems st @
                      [createLintingProblem replacements
                         \<lparr>opt_ruleId = Some rule_id, opt_loc = None, opt_message = None,
                          opt_severity = None\<rparr>]\<rparr>)
           | Some rule \<Rightarrow>
               (let ruleContext = \<lparr>ctx_id = rule_id, ctx_options = entry_options entry,
                                   ctx_filename = filename\<rparr>;
                    st1 = st\<lparr>run_trace := (run_trace st)
                              \<lparr>createCalls := createCalls (run_trace st) @ [rule_id]\<rparr>\<rparr>
                in case createRuleListeners rule ruleContext of
                     Inl ex \<Rightarrow> (Some ex, st1)
                   | Inr ruleListeners \<Rightarrow>
                       if ruleListeners = JsUndefined \<or> ruleListeners = JsNull
                       then (Some (new_Error
                              (str ''The create() function for rule '' @ [39] @ rule_id @ [39] @
                               str '' did not return an object.'')), st1)
                       else (None, st1\<lparr>emitter := emitter st1 @
                              map (\<lambda>(selector, l).
                                     \<lparr>reg_selector = selector, reg_ruleId = rule_id,
                                      reg_rule = rule, reg_listener = l\<rparr>)
                                  (Object_entries ruleListeners)\<rparr>))))"

text \<open>\<open>forEach\<close> over the rule ids: an error ends the loop.\<close>

fun runRules_rules ::
  "(jsstring \<rightharpoonup> Rule) \<Rightarrow> (jsstring \<rightharpoonup> jsstring list) \<Rightarrow> jsstring \<Rightarrow>
     RunState \<Rightarrow> (jsstring \<times> RuleEntry) list \<Rightarrow> lint_exception option \<times> RunState" where
  "runRules_rules ruleMapper replacements filename st [] = (None, st)"
| "runRules_rules ruleMapper replacements filename st (kv # kvs) =
     (case runRules_rule ruleMapper replacements filename st kv of
        (Some ex, st') \<Rightarrow> (Some ex, st')
      | (None, st') \<Rightarrow> runRules_rules ruleMapper replacements filename st' kvs)"

text \<open>
  \<open>context.report\<close> as \<open>runRules\<close> defines it, for the calls one listener makes: each
  problem is checked against the rule's \<open>meta\<close> and pushed; an error ends the listener.
\<close>

fun report_all :: "Rule \<Rightarrow> listener_action list \<Rightarrow> LintMessage list \<Rightarrow>
    lint_exception + LintMessage list" where
  "report_all rule [] problems = Inr problems"
| "report_all rule (Throw ex # rest) problems = Inl ex"
| "report_all rule (Report problem # rest) problems =
     (if fix_prop problem \<noteq> None \<and> \<not> meta_fixable rule
      then Inl (new_Error
             (str ''Fixable rules must set the '' @ [96] @ str ''meta.fixable'' @ [96] @
              str '' property to '' @ [34] @ str ''code'' @ [34] @ str '' or '' @ [34] @
              str ''whitespace'' @ [34] @ str ''.''))
      else if suggestions problem \<noteq> None \<and> \<not> meta_hasSuggestions rule
      then (if meta_docs_suggestion rule
            then Inl (new_Error
                   (str ''Rules with suggestions must set the '' @ [96] @
                    str ''meta.hasSuggestions'' @ [96] @ str '' property to '' @ [96] @
                    str ''true'' @ [96] @ str ''. '' @ [96] @ str ''meta.docs.suggestion'' @ [96] @
                    str '' is ignored by ESLint.''))
            else Inl (new_Error
                   (str ''Rules with suggestions must set the '' @ [96] @
                    str ''meta.hasSuggestions'' @ [96] @ str '' property to '' @ [96] @
                    str ''true'' @ [96] @ str ''.'')))
      else report_all rule rest (problems @ [problem]))"

text \<open>\<open>ruleErrorHandler\<close>, the wrapper \<open>addRuleErrorHandler\<close> puts around a listener.\<close>

definition ruleErrorHandler ::
  "Registration \<Rightarrow> ASTNode \<Rightarrow> LintMessage list \<Rightarrow> lint_exception + LintMessage list" where
  "ruleErrorHandler reg node problems =
     (case report_all (reg_rule reg) (reg_listener reg node) problems of
        Inl e \<Rightarrow> Inl (e\<lparr>exn_ruleId := Some (reg_ruleId reg)\<rparr>)
      | Inr problems' \<Rightarrow> Inr problems')"

text \<open>
  The listeners the event generator calls for one entry of the queue, called in turn.
  Which listeners these are is decided by \<open>NodeEventGenerator\<close> and \<open>CodePathAnalyzer\<close>
  (not among the sources); the model takes it as the argument \<open>matching\<close> of \<open>runRules\<close>.
\<close>

fun call_listeners ::
  "Registration list \<Rightarrow> ASTNode \<Rightarrow> LintMessage list \<times> LintTrace \<Rightarrow>
     (lint_exception + LintMessage list) \<times> LintTrace" where
  "call_listeners [] node (problems, trace) = (Inr problems, trace)"
| "call_listeners (reg # regs) node (problems, trace) =
     (let trace' = trace\<lparr>listenerCalls :=
                     listenerCalls trace @ [(reg_ruleId reg, reg_selector reg)]\<rparr>
      in case ruleErrorHandler reg node problems of
           Inl e \<Rightarrow> (Inl e, trace')
         | Inr problems' \<Rightarrow> call_listeners regs node (problems', trace'))"

text \<open>\<open>nodeQueue.forEach\<close>: an error gets \<open>currentNode\<close> and is thrown on.\<close>

fun replay_queue ::
  "(Registration list \<Rightarrow> bool \<times> ASTNode \<Rightarrow> Registration list) \<Rightarrow> Registration list \<Rightarrow>
     (bool \<times> ASTNode) list \<Rightarrow> LintMessage list \<times> LintTrace \<Rightarrow>
     (lint_exception + LintMessage list) \<times> LintTrace" where
  "replay_queue matching regs [] (problems, trace) = (Inr problems, trace)"
| "replay_queue matching regs (traversalInfo # queue) (problems, trace) =
     (case call_listeners (matching regs traversalInfo) (snd traversalInfo) (problems, trace) of
        (Inl err, trace') \<Rightarrow>
          (Inl (err\<lparr>exn_currentNode_line := Some (node_line (snd traversalInfo))\<rparr>), trace')
      | (Inr problems', trace') \<Rightarrow> replay_queue matching regs queue (problems', trace'))"

text \<open>
  \<open>runRules\<close>: the result is the array of problems or the error thrown, with the log.
\<close>

definition runRules ::
  "(Registration list \<Rightarrow> bool \<times> ASTNode \<Rightarrow> Registration list) \<Rightarrow>
     (jsstring \<rightharpoonup> Rule) \<Rightarrow> (jsstring \<rightharpoonup> jsstring list) \<Rightarrow> jsstring \<Rightarrow> ASTNode \<Rightarrow>
     (jsstring \<times> RuleEntry) list \<Rightarrow> LintTrace \<Rightarrow>
     (lint_exception + LintMessage list) \<times> LintTrace" where
  "runRules matching ruleMapper replacements filename ast configuredRules trace =
     (case runRules_rules ruleMapper replacements filename
             \<lparr>lintingProblems = [], emitter = [], run_trace = trace\<rparr> configuredRules of
        (Some ex, st) \<Rightarrow> (Inl ex, run_trace st)
      | (None, st) \<Rightarrow>
          replay_queue matching (emitter st) (nodeQueue_of ast)
            (lintingProblems st, run_trace st))"

section \<open>Parsing and \<open>verify\<close> (\<open>linter.ts\<close>)\<close>

text \<open>
  What a parser throws and what it returns.  A parser is taken with its options applied,
  as a function of the text; the \<open>try\<close> block of \<open>parse\<close> also covers the constructor of
  \<open>SourceCode\<close>, whose \<open>validate\<close> throws on an AST without tokens, comments, \<open>loc\<close> or
  \<open>range\<close>.
\<close>

record ParserError =
  pe_message :: jsstring
  pe_lineNumber :: "int option"
  pe_column :: "int option"

record ParseResult =
  pr_ast :: ASTNode
  pr_tokens :: "Token list option"
  pr_comments :: "Token list option"
  pr_has_loc :: bool
  pr_has_range :: bool

type_synonym parser = "jsstring \<Rightarrow> ParserError + ParseResult"

definition validation_error :: "string \<Rightarrow> ParserError" where
  "validation_error msg = \<lparr>pe_message = str msg, pe_lineNumber = None, pe_column = None\<rparr>"

definition validate :: "ParseResult \<Rightarrow> ParserError + Token list \<times> Token list" where
  "validate pr =
     (case pr_tokens pr of
        None \<Rightarrow> Inl (validation_error ''AST is missing the tokens array.'')
      | Some tokens \<Rightarrow>
          (case pr_comments pr of
             None \<Rightarrow> Inl (validation_error ''AST is missing the comments array.'')
           | Some comments \<Rightarrow>
               if \<not> pr_has_loc pr
               then Inl (validation_error ''AST is missing location information.'')
               else if \<not> pr_has_range pr
               then Inl (validation_error ''AST is missing range information'')
               else Inr (tokens, comments)))"

text \<open>A \<open>SourceCode\<close> object with the AST it was built from.\<close>

record ParsedSource =
  ps_sourceCode :: SourceCode
  ps_ast :: ASTNode
  ps_comments :: "Token list"

definition stripUnicodeBOM :: "jsstring \<Rightarrow> jsstring" where
  "stripUnicodeBOM text = (case text of [] \<Rightarrow> text | c # rest \<Rightarrow> if c = 65279 then rest else text)"

text \<open>
  \<open>message.replace(/^line \d+:/iu, "")\<close>: a leading \<open>line\<close> in any case, a space, digits
  and a colon are removed.
\<close>

definition is_digit :: "nat \<Rightarrow> bool" where
  "is_digit c \<longleftrightarrow> 48 \<le> c \<and> c \<le> 57"

definition to_lower :: "nat \<Rightarrow> nat" where
  "to_lower c = (if 65 \<le> c \<and> c \<le> 90 then c + 32 else c)"

definition strip_line_number :: "jsstring \<Rightarrow> jsstring" where
  "strip_line_number msg =
     (if map to_lower (take 4 msg) = str ''line'' \<and> take 1 (drop 4 msg) = [32] then
        (let digits = takeWhile is_digit (drop 5 msg);
             after = dropWhile is_digit (drop 5 msg)
         in if digits \<noteq> [] \<and> take 1 after = [58] then drop 1 after else msg)
      else msg)"

text \<open>
  \<open>parse\<close>.  \<open>shebangPattern\<close> gives the first capture group of
  \<open>astUtils.shebangPattern\<close> (not among the sources) when it matches, that is the text
  after a leading \<open>#!\<close> up to the end of the line; the replacement puts \<open>//\<close> for \<open>#!\<close>.
  The result is the fatal problem or the source code object.
\<close>

definition textToParse :: "(jsstring \<Rightarrow> jsstring option) \<Rightarrow> jsstring \<Rightarrow> jsstring" where
  "textToParse shebangPattern text =
     (let stripped = stripUnicodeBOM text
      in case shebangPattern stripped of
           None \<Rightarrow> stripped
         | Some captured \<Rightarrow> str ''//'' @ captured @ drop (2 + length captured) stripped)"

definition parse ::
  "(jsstring \<Rightarrow> jsstring option) \<Rightarrow> parser \<Rightarrow> jsstring \<Rightarrow> LintMessage + ParsedSource" where
  "parse shebangPattern the_parser text =
     (let attempt = (case the_parser (textToParse shebangPattern text) of
                       Inl ex \<Rightarrow> Inl ex
                     | Inr pr \<Rightarrow>
                         (case validate pr of
                            Inl ex \<Rightarrow> Inl ex
                          | Inr (tokens, comments) \<Rightarrow>
                              Inr \<lparr>ps_sourceCode = newSourceCode shebangPattern text tokens comments,
                                   ps_ast = pr_ast pr, ps_comments = comments\<rparr>))
      in case attempt of
           Inr source \<Rightarrow> Inr source
         | Inl ex \<Rightarrow>
             Inl \<lparr>ruleId = None,
                  fatal = Some True,
                  severity = 2,
                  message = str ''Parsing error: '' @ trim (strip_line_number (pe_message ex)),
                  line = pe_lineNumber ex,
                  column = pe_column ex,
                  endLine = None,
                  endColumn = None,
                  nodeType = None,
                  fix_prop = None,
                  suggestions = None,
                  suppressions = None\<rparr>)"

text \<open>
  \<open>config.parser\<close>: left out, an object with \<open>filePath\<close> and \<open>definition\<close>, or a name; and
  the parts of a config and of the normalized options that \<open>_verifyWithoutProcessors\<close>
  uses below.
\<close>

datatype ParserConfig = ParserDefault | ParserObject jsstring parser | ParserName jsstring

record ConfigData =
  cfg_parser :: ParserConfig
  cfg_rules :: "(jsstring \<times> RuleEntry) list"

record VerifyOptions =
  vo_filename :: jsstring
  vo_allowInlineConfig :: bool
  vo_warnInlineConfig :: "jsstring option"
  vo_disableFixes :: bool
  vo_reportUnusedDisableDirectives :: jsstring

record DisableDirective =
  dd_type :: jsstring
  dd_line :: int
  dd_column :: int
  dd_ruleId :: "jsstring option"
  dd_justification :: jsstring

record CommentDirectives =
  cd_configuredRules :: "(jsstring \<times> RuleEntry) list"
  cd_problems :: "LintMessage list"
  cd_disableDirectives :: "DisableDirective list"

text \<open>The slots of a \<open>Linter\<close> instance that the methods below read or write.\<close>

record LinterInternalSlots =
  lastSourceCode :: "ParsedSource option"
  lastSuppressedMessages :: "LintMessage list"
  parserMap :: "jsstring \<rightharpoonup> parser"
  ruleMap :: "jsstring \<rightharpoonup> Rule"
  configType_flat :: bool

text \<open>
  What the linter takes from modules that are not among the sources: the default parser
  \<open>espree\<close>, the shebang pattern, the table of replaced rules, the comment parser behind
  \<open>getDirectiveComments\<close> (the directives of the comments, given the rule lookup and
  \<open>warnInlineConfig\<close>), \<open>applyDisableDirectives\<close> and the event generator; and from the
  engine, \<open>Array.prototype.sort\<close> where the language does not fix its result.
\<close>

record Collaborators =
  env_espree :: parser
  env_shebangPattern :: "jsstring \<Rightarrow> jsstring option"
  env_replacements :: "jsstring \<rightharpoonup> jsstring list"
  env_getDirectiveComments ::
    "Token list \<Rightarrow> (jsstring \<rightharpoonup> Rule) \<Rightarrow> jsstring option \<Rightarrow> CommentDirectives"
  env_applyDisableDirectives ::
    "DisableDirective list \<Rightarrow> bool \<Rightarrow> LintMessage list \<Rightarrow> jsstring \<Rightarrow> LintMessage list"
  env_matching :: "Registration list \<Rightarrow> bool \<times> ASTNode \<Rightarrow> Registration list"
  env_sort :: "(LintMessage \<Rightarrow> LintMessage \<Rightarrow> int) \<Rightarrow> LintMessage list \<Rightarrow> LintMessage list"

text \<open>
  \<open>Object.assign({}, a, b)\<close> on objects as lists of entries: a key of \<open>a\<close> keeps its place
  and takes the value of \<open>b\<close> if \<open>b\<close> has it; the keys only \<open>b\<close> has follow.
\<close>

definition Object_assign :: "('k \<times> 'v) list \<Rightarrow> ('k \<times> 'v) list \<Rightarrow> ('k \<times> 'v) list" where
  "Object_assign a b =
     map (\<lambda>(k, v). (k, case map_of b k of Some v' \<Rightarrow> v' | None \<Rightarrow> v)) a @
     filter (\<lambda>(k, v). k \<notin> fst ` set a) b"

text \<open>
  The comparison \<open>problemA.line - problemB.line || problemA.column - problemB.column\<close>; a
  difference with \<open>undefined\<close> is \<open>NaN\<close>, which is falsy and which \<open>sort\<close> reads as \<open>0\<close>.
  When every problem has a line and a column the comparison is a consistent order and
  \<open>Array.prototype.sort\<close>, which is stable, has one possible result: each problem goes
  behind the ones it does not come strictly before.  Otherwise the comparison is not
  consistent and the language leaves the order to the engine; the model then takes the
  engine's \<open>sort\<close> as the argument \<open>host_sort\<close>.
\<close>

definition compare_problems :: "LintMessage \<Rightarrow> LintMessage \<Rightarrow> int" where
  "compare_problems a b =
     (let by_line = (case (line a, line b) of (Some x, Some y) \<Rightarrow> x - y | _ \<Rightarrow> 0)
      in if by_line \<noteq> 0 then by_line
         else (case (column a, column b) of (Some x, Some y) \<Rightarrow> x - y | _ \<Rightarrow> 0))"

fun insert_problem :: "LintMessage \<Rightarrow> LintMessage list \<Rightarrow> LintMessage list" where
  "insert_problem p [] = [p]"
| "insert_problem p (q # qs) =
     (if compare_problems p q < 0 then p # q # qs else q # insert_problem p qs)"

definition sort_problems ::
  "((LintMessage \<Rightarrow> LintMessage \<Rightarrow> int) \<Rightarrow> LintMessage list \<Rightarrow> LintMessage list) \<Rightarrow>
     LintMessage list \<Rightarrow> LintMessage list" where
  "sort_problems host_sort ps =
     (if list_all (\<lambda>p. line p \<noteq> None \<and> column p \<noteq> None) ps
      then foldl (\<lambda>sorted p. insert_problem p sorted) [] ps
      else host_sort compare_problems ps)"

text \<open>A number in a template literal: its decimal digits.\<close>

function show_nat :: "nat \<Rightarrow> jsstring" where
  "show_nat n = (if n < 10 then [48 + n] else show_nat (n div 10) @ [48 + n mod 10])"
  by pat_completeness auto
termination
  by (relation "measure id") auto

declare show_nat.simps [simp del]

definition show_int :: "int \<Rightarrow> jsstring" where
  "show_int i = (if i < 0 then 45 # show_nat (nat (- i)) else show_nat (nat i))"

text \<open>
  The \<open>catch\<close> around \<open>runRules\<close>: the message gets the file name, the line of
  \<open>err.currentNode\<close> and the rule id, where the error has them.
\<close>

definition annotate_error :: "jsstring \<Rightarrow> lint_exception \<Rightarrow> lint_exception" where
  "annotate_error filename err =
     err\<lparr>exn_message :=
       exn_message err @ [10] @ str ''Occurred while linting '' @ filename @
       (case exn_currentNode_line err of Some l \<Rightarrow> str '':'' @ show_int l | None \<Rightarrow> []) @
       (case exn_ruleId err of
          Some r \<Rightarrow> [10] @ str ''Rule: '' @ [34] @ r @ [34]
        | None \<Rightarrow> [])\<rparr>"

datatype TextOrSourceCode = Text jsstring | Source ParsedSource

text \<open>
  The parser a config asks for: \<open>espree\<close> by default, the \<open>definition\<close> of a parser
  object, or the parser of that name in \<open>parserMap\<close>; \<open>None\<close> when the name is unknown.
\<close>

definition resolveParser :: "Collaborators \<Rightarrow> LinterInternalSlots \<Rightarrow> ConfigData \<Rightarrow> parser option" where
  "resolveParser env slots config =
     (case cfg_parser config of
        ParserDefault \<Rightarrow> Some (env_espree env)
      | ParserObject filePath definition \<Rightarrow> Some definition
      | ParserName name \<Rightarrow> parserMap slots name)"

definition config_or_default :: "ConfigData option \<Rightarrow> ConfigData" where
  "config_or_default providedConfig =
     (case providedConfig of
        Some c \<Rightarrow> c
      | None \<Rightarrow> \<lparr>cfg_parser = ParserDefault, cfg_rules = []\<rparr>)"

text \<open>
  \<open>_verifyWithoutProcessors\<close>.  \<open>config\<close> is \<open>None\<close> for a missing config, which counts as
  \<open>{}\<close>.  The environments, the globals and the scope analysis have no part in the
  result modelled here and are left out.  An error of \<open>runRules\<close> is thrown on with a
  longer message.
\<close>

definition verifyWithoutProcessors ::
  "Collaborators \<Rightarrow> LinterInternalSlots \<times> LintTrace \<Rightarrow> TextOrSourceCode \<Rightarrow>
     ConfigData option \<Rightarrow> VerifyOptions \<Rightarrow>
     (lint_exception + LintMessage list) \<times> LinterInternalSlots \<times> LintTrace" where
  "verifyWithoutProcessors env state textOrSourceCode providedConfig options =
     (case state of (slots0, trace) \<Rightarrow>
      let config = config_or_default providedConfig;
          slots1 = (case textOrSourceCode of
                      Text t \<Rightarrow> slots0\<lparr>lastSourceCode := None\<rparr>
                    | Source sc \<Rightarrow> slots0\<lparr>lastSourceCode := Some sc\<rparr>);
          text = (case textOrSourceCode of
                    Text t \<Rightarrow> t
                  | Source sc \<Rightarrow> sc_text (ps_sourceCode sc));
          resolved = resolveParser env slots1 config
      in case resolved of
           None \<Rightarrow>
             (Inr [\<lparr>ruleId = None, fatal = Some True, severity = 2,
                    message = str ''Configured parser '' @ [39] @
                      (case cfg_parser config of ParserName name \<Rightarrow> name | _ \<Rightarrow> []) @ [39] @
                      str '' was not found.'',
                    line = Some 0, column = Some 0, endLine = None, endColumn = None,
                    nodeType = None, fix_prop = None, suggestions = None,
                    suppressions = None\<rparr>],
              slots1, trace)
         | Some the_parser \<Rightarrow>
             (case (case lastSourceCode slots1 of
                      None \<Rightarrow> parse (env_shebangPattern env) the_parser text
                    | Some sc \<Rightarrow> Inr sc) of
                Inl error \<Rightarrow> (Inr [error], slots1, trace)
              | Inr sourceCode \<Rightarrow>
                  (let slots2 = slots1\<lparr>lastSourceCode := Some sourceCode\<rparr>;
                       commentDirectives =
                         (if vo_allowInlineConfig options
                          then env_getDirectiveComments env (ps_comments sourceCode) (ruleMap slots2)
                                 (vo_warnInlineConfig options)
                          else \<lparr>cd_configuredRules = [], cd_problems = [],
                                cd_disableDirectives = []\<rparr>);
                       configuredRules =
                         Object_assign (cfg_rules config) (cd_configuredRules commentDirectives)
                   in case runRules (env_matching env) (ruleMap slots2) (env_replacements env)
                             (vo_filename options) (ps_ast sourceCode) configuredRules trace of
                        (Inl err, trace') \<Rightarrow>
                          (Inl (annotate_error (vo_filename options) err), slots2, trace')
                      | (Inr problems, trace') \<Rightarrow>
                          (Inr (env_applyDisableDirectives env
                                  (cd_disableDirectives commentDirectives)
                                  (vo_disableFixes options)
                                  (sort_problems (env_sort env) (problems @ cd_problems commentDirectives))
                                  (vo_reportUnusedDisableDirectives options)),
                           slots2, trace'))))"

section \<open>Suppressed messages (\<open>linter.ts\<close>)\<close>

text \<open>
  The body of the \<open>for (const problem of problems)\<close> loop: \<open>problem.suppressions\<close> is
  truthy exactly when the property is present (an array, also an empty one, is truthy).
\<close>

definition distinguish_step ::
  "LintMessage list \<times> LintMessage list \<Rightarrow> LintMessage \<Rightarrow> LintMessage list \<times> LintMessage list" where
  "distinguish_step acc problem =
     (case acc of (messages, suppressedMessages) \<Rightarrow>
        if suppressions problem \<noteq> None
        then (messages, suppressedMessages @ [problem])
        else (messages @ [problem], suppressedMessages))"

definition distinguishSuppressedMessages ::
  "LinterInternalSlots \<Rightarrow> LintMessage list \<Rightarrow> LintMessage list \<times> LinterInternalSlots" where
  "distinguishSuppressedMessages slots problems =
     (case foldl distinguish_step ([], []) problems of (messages, suppressedMessages) \<Rightarrow>
        (messages, slots\<lparr>lastSuppressedMessages := suppressedMessages\<rparr>))"

definition getSuppressedMessages :: "LinterInternalSlots \<Rightarrow> LintMessage list" where
  "getSuppressedMessages slots = lastSuppressedMessages slots"

text \<open>
  \<open>verify\<close>.  It chooses one of four methods and hands the problems to
  \<open>_distinguishSuppressedMessages\<close>.  \<open>_verifyWithoutProcessors\<close> is the one above; the
  other three (\<open>_verifyWithFlatConfigArray\<close>, \<open>_verifyWithConfigArray\<close>,
  \<open>_verifyWithProcessor\<close>) are the argument \<open>paths\<close>: whatever they do with the text and
  the options, \<open>verify\<close> treats their result in the same way.
\<close>

datatype VerifyPath = FlatConfigArray | ConfigArray | WithProcessor | WithoutProcessors

text \<open>
  The arguments of a call: the text or source code object, the config (\<open>None\<close> when it
  is falsy), whether the config has a method \<open>extractConfig\<close>, whether the options have
  \<open>preprocess\<close> or \<open>postprocess\<close>, and the normalized options.
\<close>

record VerifyArgs =
  va_textOrSourceCode :: TextOrSourceCode
  va_config :: "ConfigData option"
  va_has_extractConfig :: bool
  va_has_processor :: bool
  va_options :: VerifyOptions

definition verify_path :: "LinterInternalSlots \<Rightarrow> VerifyArgs \<Rightarrow> VerifyPath" where
  "verify_path slots args =
     (if va_config args \<noteq> None \<and> configType_flat slots then FlatConfigArray
      else if va_config args \<noteq> None \<and> va_has_extractConfig args then ConfigArray
      else if va_has_processor args then WithProcessor
      else WithoutProcessors)"

type_synonym verify_result =
  "(lint_exception + LintMessage list) \<times> LinterInternalSlots \<times> LintTrace"

text \<open>The problems the chosen method produces, before suppressed ones are set apart.\<close>

definition verify_problems ::
  "Collaborators \<Rightarrow> (VerifyPath \<Rightarrow> LinterInternalSlots \<times> LintTrace \<Rightarrow> VerifyArgs \<Rightarrow> verify_result) \<Rightarrow>
     LinterInternalSlots \<times> LintTrace \<Rightarrow> VerifyArgs \<Rightarrow> verify_result" where
  "verify_problems env paths state args =
     (case verify_path (fst state) args of
        WithoutProcessors \<Rightarrow>
          verifyWithoutProcessors env state (va_textOrSourceCode args) (va_config args)
            (va_options args)
      | path \<Rightarrow> paths path state args)"

definition verify ::
  "Collaborators \<Rightarrow> (VerifyPath \<Rightarrow> LinterInternalSlots \<times> LintTrace \<Rightarrow> VerifyArgs \<Rightarrow> verify_result) \<Rightarrow>
     LinterInternalSlots \<times> LintTrace \<Rightarrow> VerifyArgs \<Rightarrow> verify_result" where
  "verify env paths state args =
     (case verify_problems env paths state args of
        (Inl ex, slots, trace) \<Rightarrow> (Inl ex, slots, trace)
      | (Inr problems, slots, trace) \<Rightarrow>
          (case distinguishSuppressedMessages slots problems of
             (msgs, slots') \<Rightarrow> (Inr msgs, slots', trace)))"

section \<open>Fixes (\<open>source-code-fixer\<close>) and \<open>verifyAndFix\<close> (\<open>linter.ts\<close>)\<close>

text \<open>The option \<open>fix\<close>: a boolean or a predicate over problems.\<close>

datatype ShouldFix = FixAll bool | FixIf "LintMessage \<Rightarrow> bool"

fun wanted :: "ShouldFix \<Rightarrow> LintMessage \<Rightarrow> bool" where
  "wanted (FixAll b) m = b"
| "wanted (FixIf predicate) m = predicate m"

record FixResult =
  fixed :: bool
  messages :: "LintMessage list"
  output_text :: jsstring

text \<open>
  A stable insertion sort by a comparison that tells when the first argument comes
  strictly before the second: each element goes behind the ones it does not precede.
\<close>

fun insert_before :: "('a \<Rightarrow> 'a \<Rightarrow> bool) \<Rightarrow> 'a \<Rightarrow> 'a list \<Rightarrow> 'a list" where
  "insert_before precedes x [] = [x]"
| "insert_before precedes x (y # ys) =
     (if precedes x y then x # y # ys else y # insert_before precedes x ys)"

definition stable_sort :: "('a \<Rightarrow> 'a \<Rightarrow> bool) \<Rightarrow> 'a list \<Rightarrow> 'a list" where
  "stable_sort precedes xs = foldl (\<lambda>sorted x. insert_before precedes x sorted) [] xs"

definition fix_before :: "nat \<times> Fix \<Rightarrow> nat \<times> Fix \<Rightarrow> bool" where
  "fix_before a b \<longleftrightarrow>
     fst (fix_range (snd a)) < fst (fix_range (snd b)) \<or>
     (fst (fix_range (snd a)) = fst (fix_range (snd b)) \<and>
      snd (fix_range (snd a)) < snd (fix_range (snd b)))"

text \<open>
  The fixes accepted in order: one whose start is not before the end of the last
  accepted one (\<open>None\<close> before the first).
\<close>

fun accept_fixes :: "int option \<Rightarrow> (nat \<times> Fix) list \<Rightarrow> (nat \<times> Fix) list" where
  "accept_fixes lastEnd [] = []"
| "accept_fixes lastEnd (f # fs) =
     (if (case lastEnd of None \<Rightarrow> True | Some e \<Rightarrow> fst (fix_range (snd f)) \<ge> e)
      then f # accept_fixes (Some (snd (fix_range (snd f)))) fs
      else accept_fixes lastEnd fs)"

text \<open>The text from offset \<open>pos\<close> on, with the accepted fixes spliced in, in ascending order.\<close>

fun splice :: "jsstring \<Rightarrow> int \<Rightarrow> (nat \<times> Fix) list \<Rightarrow> jsstring" where
  "splice text pos [] = drop (nat pos) text"
| "splice text pos (f # fs) =
     take (nat (fst (fix_range (snd f)) - pos)) (drop (nat pos) text) @ fix_text (snd f) @
     splice text (snd (fix_range (snd f))) fs"

text \<open>
  Modelled from the spec: \<open>SourceCodeFixer.applyFixes\<close> (\<open>source-code-fixer\<close> is not
  among the sources), after section 4.8.  The candidates are the problems with a fix
  that the option \<open>fix\<close> lets through, each with its position in \<open>messages\<close>; they are
  sorted by \<open>(range.start, range.end)\<close>; a fix is accepted when its start is at or after
  the end of the last accepted one; the accepted fixes are spliced in ascending order;
  \<open>fixed\<close> says whether a fix was applied, and \<open>messages\<close> are the problems whose fixes
  were not applied.
\<close>

definition applyFixes :: "jsstring \<Rightarrow> LintMessage list \<Rightarrow> ShouldFix \<Rightarrow> FixResult" where
  "applyFixes sourceText msgs shouldFix =
     (let indexed = zip [0..<length msgs] msgs;
          candidates = concat (map (\<lambda>(i, m).
                          case fix_prop m of
                            Some f \<Rightarrow> if wanted shouldFix m then [(i, f)] else []
                          | None \<Rightarrow> []) indexed);
          accepted = accept_fixes None (stable_sort fix_before candidates)
      in \<lparr>fixed = (accepted \<noteq> []),
          messages = map snd (filter (\<lambda>(i, m). i \<notin> fst ` set accepted) indexed),
          output_text = splice sourceText 0 accepted\<rparr>)"

definition MAX_AUTOFIX_PASSES :: nat where
  "MAX_AUTOFIX_PASSES = 10"

text \<open>The variables of \<open>verifyAndFix\<close> when its \<open>do\<close> loop is left.\<close>

record LoopState =
  ls_messages :: "LintMessage list"
  ls_fixedResult :: FixResult
  ls_fixed :: bool
  ls_passNumber :: nat
  ls_currentText :: jsstring

text \<open>
  The \<open>do ... while\<close> loop of \<open>verifyAndFix\<close>, from the values of \<open>fixed\<close>, \<open>passNumber\<close> and
  \<open>currentText\<close> at the start of a pass.  \<open>verify\<close> is \<open>this.verify\<close> with the config and the
  options of the call, as a function of the linter's state and the text; an error it
  throws ends \<open>verifyAndFix\<close>.
\<close>

function verifyAndFix_loop ::
  "('s \<Rightarrow> jsstring \<Rightarrow> (lint_exception + LintMessage list) \<times> 's) \<Rightarrow> ShouldFix \<Rightarrow>
     's \<Rightarrow> bool \<Rightarrow> nat \<Rightarrow> jsstring \<Rightarrow> (lint_exception + LoopState) \<times> 's" where
  "verifyAndFix_loop verify_fn shouldFix s fixed0 passNumber0 currentText =
     (let passNumber = passNumber0 + 1 in
      case verify_fn s currentText of
        (Inl ex, s') \<Rightarrow> (Inl ex, s')
      | (Inr msgs, s') \<Rightarrow>
          (let fixedResult = applyFixes currentText msgs shouldFix in
           if length msgs = 1 \<and> fatal (msgs ! 0) = Some True
           then (Inr \<lparr>ls_messages = msgs, ls_fixedResult = fixedResult, ls_fixed = fixed0,
                      ls_passNumber = passNumber, ls_currentText = currentText\<rparr>, s')
           else if fixed fixedResult \<and> passNumber < MAX_AUTOFIX_PASSES
           then verifyAndFix_loop verify_fn shouldFix s' (fixed0 \<or> fixed fixedResult)
                  passNumber (output_text fixedResult)
           else (Inr \<lparr>ls_messages = msgs, ls_fixedResult = fixedResult,
                      ls_fixed = (fixed0 \<or> fixed fixedResult), ls_passNumber = passNumber,
                      ls_currentText = output_text fixedResult\<rparr>, s')))"
  by pat_completeness auto
termination
  by (relation "measure (\<lambda>(verify_fn, shouldFix, s, fixed0, passNumber0, currentText).
        MAX_AUTOFIX_PASSES - passNumber0)") auto

declare verifyAndFix_loop.simps [simp del]

text \<open>What follows the loop: a last \<open>verify\<close> if the last result had fixes.\<close>

definition verifyAndFix_finish ::
  "('s \<Rightarrow> jsstring \<Rightarrow> (lint_exception + LintMessage list) \<times> 's) \<Rightarrow>
     LoopState \<Rightarrow> 's \<Rightarrow> (lint_exception + FixResult) \<times> 's" where
  "verifyAndFix_finish verify_fn L s =
     (if fixed (ls_fixedResult L) then
        (case verify_fn s (ls_currentText L) of
           (Inl ex, s') \<Rightarrow> (Inl ex, s')
         | (Inr msgs, s') \<Rightarrow>
             (Inr ((ls_fixedResult L)\<lparr>messages := msgs, fixed := ls_fixed L,
                                       output_text := ls_currentText L\<rparr>), s'))
      else (Inr ((ls_fixedResult L)\<lparr>fixed := ls_fixed L, output_text := ls_currentText L\<rparr>), s))"

definition verifyAndFix ::
  "('s \<Rightarrow> jsstring \<Rightarrow> (lint_exception + LintMessage list) \<times> 's) \<Rightarrow> ShouldFix \<Rightarrow>
     's \<Rightarrow> jsstring \<Rightarrow> (lint_exception + FixResult) \<times> 's" where
  "verifyAndFix verify_fn shouldFix s text =
     (case verifyAndFix_loop verify_fn shouldFix s False 0 text of
        (Inl ex, s') \<Rightarrow> (Inl ex, s')
      | (Inr L, s') \<Rightarrow> verifyAndFix_finish verify_fn L s')"

text \<open>
  A \<open>verify\<close> that also records its calls, to state which calls \<open>verifyAndFix\<close> makes:
  each call is logged with the text it was given and what it returned or threw.  The
  source keeps no such record.
\<close>

type_synonym verify_call = "jsstring \<times> (lint_exception + LintMessage list)"

definition logging ::
  "('s \<Rightarrow> jsstring \<Rightarrow> (lint_exception + LintMessage list) \<times> 's) \<Rightarrow>
     's \<times> verify_call list \<Rightarrow> jsstring \<Rightarrow>
     (lint_exception + LintMessage list) \<times> 's \<times> verify_call list" where
  "logging verify_fn sl text =
     (case verify_fn (fst sl) text of (r, s') \<Rightarrow> (r, s', snd sl @ [(text, r)]))"

text \<open>The test \<open>messages.length === 1 && messages[0].fatal\<close> that leaves the loop.\<close>

definition single_fatal :: "LintMessage list \<Rightarrow> bool" where
  "single_fatal msgs \<longleftrightarrow> length msgs = 1 \<and> fatal (msgs ! 0) = Some True"

text \<open>
  The rule ids of a config that are enabled (their severity is not \<open>0\<close>) and have a
  rule, in the order of the config.
\<close>

definition enabled_rule_ids ::
  "(jsstring \<rightharpoonup> Rule) \<Rightarrow> (jsstring \<times> RuleEntry) list \<Rightarrow> jsstring list" where
  "enabled_rule_ids ruleMapper configuredRules =
     map fst (filter (\<lambda>kv. entry_severity (snd kv) \<noteq> 0 \<and> ruleMapper (fst kv) \<noteq> None)
                configuredRules)"

text \<open>
  A configured rule that ends the loading of the rules: it is enabled, it has a rule, and
  \<open>create\<close> throws or returns \<open>undefined\<close> or \<open>null\<close>.  The rules \<open>forEach\<close> gets to are
  the ones before the first such rule, and that rule.
\<close>

definition create_fails ::
  "(jsstring \<rightharpoonup> Rule) \<Rightarrow> jsstring \<Rightarrow> jsstring \<times> RuleEntry \<Rightarrow> bool" where
  "create_fails ruleMapper filename kv \<longleftrightarrow>
     entry_severity (snd kv) \<noteq> 0 \<and>
     (case ruleMapper (fst kv) of
        None \<Rightarrow> False
      | Some rule \<Rightarrow>
          (case create rule \<lparr>ctx_id = fst kv, ctx_options = entry_options (snd kv),
                             ctx_filename = filename\<rparr> of
             Inl ex \<Rightarrow> True
           | Inr v \<Rightarrow> v = JsUndefined \<or> v = JsNull))"

definition rules_reached ::
  "(jsstring \<rightharpoonup> Rule) \<Rightarrow> jsstring \<Rightarrow> (jsstring \<times> RuleEntry) list \<Rightarrow>
     (jsstring \<times> RuleEntry) list" where
  "rules_reached ruleMapper filename configuredRules =
     takeWhile (\<lambda>kv. \<not> create_fails ruleMapper filename kv) configuredRules @
     take 1 (dropWhile (\<lambda>kv. \<not> create_fails ruleMapper filename kv) configuredRules)"

section \<open>Properties\<close>

lemma foldl_distinguish_step:
  "foldl distinguish_step (ms, ss) problems =
     (ms @ filter (\<lambda>p. suppressions p = None) problems,
      ss @ filter (\<lambda>p. suppressions p \<noteq> None) problems)"
  by (induction problems arbitrary: ms ss) (simp_all add: distinguish_step_def)

subsection \<open>The merged stream\<close>









subsection \<open>Directive and justification\<close>

lemma hyphen_not_whitespace: "\<not> is_whitespace hyphen"
  by (simp add: is_whitespace_def hyphen_def)

lemma takeWhile_run:
  "k < length rest \<Longrightarrow> take k rest = replicate k h \<Longrightarrow> rest ! k \<noteq> h \<Longrightarrow>
     takeWhile (\<lambda>x. x = h) rest = take k rest \<and> dropWhile (\<lambda>x. x = h) rest = drop k rest"
proof (induction rest arbitrary: k)
  case Nil
  then show ?case by simp
next
  case (Cons a rest)
  show ?case
  proof (cases k)
    case 0
    with Cons.prems show ?thesis by simp
  next
    case (Suc k')
    with Cons.prems have "a = h" "k' < length rest" "take k' rest = replicate k' h" "rest ! k' \<noteq> h"
      by simp_all
    with Cons.IH [of k'] Suc show ?thesis by simp
  qed
qed

lemma separator_match_iff:
  "separator_match s = Some n \<longleftrightarrow> (\<exists>k. n = k + 2 \<and> separator_at s 0 k)"
proof (cases s)
  case Nil
  then show ?thesis by (simp add: separator_match_def separator_at_def)
next
  case (Cons c rest)
  let ?d = "takeWhile (\<lambda>x. x = hyphen) rest"
  let ?a = "dropWhile (\<lambda>x. x = hyphen) rest"
  show ?thesis
  proof
    assume m: "separator_match s = Some n"
    with Cons have c: "is_whitespace c" and d: "2 \<le> length ?d"
      by (auto simp: separator_match_def Let_def split: if_splits list.splits)
    from m Cons c d obtain x xs where a: "?a = x # xs" and x: "is_whitespace x" and n: "n = length ?d + 2"
      by (auto simp: separator_match_def Let_def split: if_splits list.splits)
    let ?k = "length ?d"
    have "length ?d + length ?a = length rest"
      by (metis length_append takeWhile_dropWhile_id)
    with a have len: "?k < length rest" by simp
    have tk: "take ?k rest = replicate ?k hyphen"
    proof -
      have "take ?k rest = ?d" by (rule takeWhile_eq_take [symmetric])
      moreover have "?d = replicate ?k hyphen"
        by (rule replicate_length_same [symmetric]) (auto dest: set_takeWhileD)
      ultimately show ?thesis by simp
    qed
    have "drop ?k rest = x # xs"
      using a by (simp add: dropWhile_eq_drop [symmetric])
    then have "rest ! ?k = x" by (rule nth_via_drop)
    with x have "is_whitespace (rest ! ?k)" by simp
    with c d len tk Cons have "separator_at s 0 ?k"
      by (simp add: separator_at_def)
    with n show "\<exists>k. n = k + 2 \<and> separator_at s 0 k" by blast
  next
    assume "\<exists>k. n = k + 2 \<and> separator_at s 0 k"
    then obtain k where n: "n = k + 2" and at: "separator_at s 0 k" by blast
    from at Cons have c: "is_whitespace c" and k2: "2 \<le> k" and len: "k < length rest"
      and tk: "take k rest = replicate k hyphen" and w: "is_whitespace (rest ! k)"
      by (simp_all add: separator_at_def)
    from w hyphen_not_whitespace have "rest ! k \<noteq> hyphen" by auto
    from takeWhile_run [OF len tk this]
    have d: "?d = take k rest" and a: "?a = drop k rest" by simp_all
    from len have "drop k rest = rest ! k # drop (Suc k) rest"
      by (simp add: Cons_nth_drop_Suc)
    with d a c k2 len w n Cons show "separator_match s = Some n"
      by (simp add: separator_match_def Let_def)
  qed
qed

lemma separator_at_Cons_Suc [simp]:
  "separator_at (c # cs) (Suc i) k \<longleftrightarrow> separator_at cs i k"
  by (simp add: separator_at_def)

lemma separator_at_unique:
  assumes "separator_at v i k" and "separator_at v i k'"
  shows "k = k'"
proof -
  have aux: "False" if a: "separator_at v i a" and b: "separator_at v i b" and "a < b" for a b
  proof -
    from b have "take b (drop (i + 1) v) ! a = replicate b hyphen ! a"
      by (simp add: separator_at_def)
    moreover have "i + 1 \<le> length v" using b by (simp add: separator_at_def)
    then have "take b (drop (i + 1) v) ! a = v ! (i + 1 + a)"
      using \<open>a < b\<close> by simp
    ultimately have "v ! (i + a + 1) = hyphen"
      using \<open>a < b\<close> by (simp add: add.commute add.left_commute)
    moreover from a have "is_whitespace (v ! (i + a + 1))" by (simp add: separator_at_def)
    ultimately show False using hyphen_not_whitespace by simp
  qed
  show ?thesis
    using aux [of k k'] aux [of k' k] assms by (cases k k' rule: linorder_cases) auto
qed

lemma separator_exec_None:
  "separator_exec s off = None \<longleftrightarrow> (\<forall>i k. \<not> separator_at s i k)"
proof (induction s arbitrary: off)
  case Nil
  then show ?case by (simp add: separator_at_def)
next
  case (Cons c cs)
  show ?case
  proof (cases "separator_match (c # cs)")
    case None
    then have no0: "\<forall>k. \<not> separator_at (c # cs) 0 k"
      using separator_match_iff [of "c # cs"] by auto
    have "(\<forall>i k. \<not> separator_at (c # cs) i k) \<longleftrightarrow> (\<forall>i k. \<not> separator_at cs i k)"
    proof
      assume h: "\<forall>i k. \<not> separator_at (c # cs) i k"
      show "\<forall>i k. \<not> separator_at cs i k"
      proof (intro allI)
        fix i k from h have "\<not> separator_at (c # cs) (Suc i) k" by blast
        then show "\<not> separator_at cs i k" by simp
      qed
    next
      assume h: "\<forall>i k. \<not> separator_at cs i k"
      show "\<forall>i k. \<not> separator_at (c # cs) i k"
      proof (intro allI)
        fix i k show "\<not> separator_at (c # cs) i k"
          using no0 h by (cases i) auto
      qed
    qed
    with None Cons.IH [of "off + 1"] show ?thesis by simp
  next
    case (Some n)
    then have "\<exists>k. separator_at (c # cs) 0 k"
      using separator_match_iff [of "c # cs" n] by auto
    with Some show ?thesis by auto
  qed
qed

lemma separator_exec_Some:
  "separator_exec s off = Some (idx, n) \<Longrightarrow>
     \<exists>i k. idx = off + i \<and> n = k + 2 \<and> separator_at s i k \<and>
           (\<forall>i'<i. \<forall>k'. \<not> separator_at s i' k')"
proof (induction s arbitrary: off)
  case Nil
  then show ?case by simp
next
  case (Cons c cs)
  show ?case
  proof (cases "separator_match (c # cs)")
    case None
    then have no0: "\<forall>k. \<not> separator_at (c # cs) 0 k"
      using separator_match_iff [of "c # cs"] by auto
    from None Cons.prems have "separator_exec cs (off + 1) = Some (idx, n)" by simp
    from Cons.IH [OF this] obtain i k where ik: "idx = off + 1 + i" "n = k + 2"
      "separator_at cs i k" "\<forall>i'<i. \<forall>k'. \<not> separator_at cs i' k'" by blast
    have "\<forall>i'<Suc i. \<forall>k'. \<not> separator_at (c # cs) i' k'"
    proof (intro allI impI)
      fix i' k' assume "i' < Suc i"
      then show "\<not> separator_at (c # cs) i' k'"
        using no0 ik(4) by (cases i') auto
    qed
    with ik show ?thesis
      by (intro exI [of _ "Suc i"] exI [of _ k]) simp
  next
    case (Some m)
    with Cons.prems have "idx = off" "n = m" by simp_all
    moreover from Some obtain k where "m = k + 2" "separator_at (c # cs) 0 k"
      using separator_match_iff [of "c # cs" m] by auto
    ultimately show ?thesis
      by (intro exI [of _ 0] exI [of _ k]) simp
  qed
qed

text \<open>
  C8, as stated, fails on a separator of three dashes: no \<open>\s--\s\<close> occurs in the value,
  and yet the justification is not empty and the directive part is not the whole value.
\<close>

theorem extractDirectiveComment_two_dash_counterexample:
  "\<not> two_dash_separator_occurs (str ''eslint-disable no-var --- legacy'')
   \<and> extractDirectiveComment (str ''eslint-disable no-var --- legacy'') =
       (str ''eslint-disable no-var'', str ''legacy'')
   \<and> (trim (str ''eslint-disable no-var --- legacy''), []) \<noteq>
       (str ''eslint-disable no-var'', str ''legacy'')"
  by (simp add: two_dash_separator_occurs_def two_dash_separator_at_def upt_rec
      extractDirectiveComment_def separator_match_def is_whitespace_def hyphen_def trim_def
      str_def)

text \<open>
  C8 (amended): the separator is the leftmost occurrence of a white space character, two
  or more dashes and a white space character (\<open>/\s-{2,}\s/u\<close>).  When it occurs, at
  offset \<open>i\<close> with \<open>k\<close> dashes, the directive part is the trimmed text before it and the
  justification is the trimmed text after it; when it does not occur, the directive part
  is the whole trimmed value and the justification is empty.
\<close>

theorem extractDirectiveComment_separator:
  "(separator_at v i k \<and> (\<forall>i'<i. \<forall>k'. \<not> separator_at v i' k') \<longrightarrow>
      extractDirectiveComment v = (trim (take i v), trim (drop (i + k + 2) v))) \<and>
   ((\<forall>i k. \<not> separator_at v i k) \<longrightarrow> extractDirectiveComment v = (trim v, []))"
proof (intro conjI impI)
  assume "\<forall>i k. \<not> separator_at v i k"
  then have "separator_exec v 0 = None" by (simp add: separator_exec_None)
  then show "extractDirectiveComment v = (trim v, [])"
    by (simp add: extractDirectiveComment_def)
next
  assume h: "separator_at v i k \<and> (\<forall>i'<i. \<forall>k'. \<not> separator_at v i' k')"
  then have "separator_exec v 0 \<noteq> None" using separator_exec_None [of v 0] by blast
  then obtain idx n where e: "separator_exec v 0 = Some (idx, n)" by auto
  from separator_exec_Some [OF e] obtain i0 k0 where
    ik: "idx = i0" "n = k0 + 2" "separator_at v i0 k0" "\<forall>i'<i0. \<forall>k'. \<not> separator_at v i' k'"
    by auto
  have "i0 = i"
    using h ik(3,4) by (cases i0 i rule: linorder_cases) auto
  with h ik(3) have "k0 = k" using separator_at_unique by blast
  with e ik \<open>i0 = i\<close> show "extractDirectiveComment v = (trim (take i v), trim (drop (i + k + 2) v))"
    by (simp add: extractDirectiveComment_def add.assoc)
qed

theorem extractDirectiveComment_separator_witness:
  "separator_at (str ''a --- b'') 1 3
   \<and> extractDirectiveComment (str ''a --- b'') =
       (trim (take 1 (str ''a --- b'')), trim (drop (1 + 3 + 2) (str ''a --- b'')))
   \<and> extractDirectiveComment (str ''ab'') = (trim (str ''ab''), [])"
proof -
  have at: "separator_at (str ''a --- b'') 1 3"
    by (simp add: separator_at_def str_def is_whitespace_def hyphen_def numeral_3_eq_3)
  have first: "\<forall>i'<1. \<forall>k'. \<not> separator_at (str ''a --- b'') i' k'"
    by (simp add: separator_at_def str_def is_whitespace_def)
  have none: "\<forall>i k. \<not> separator_at (str ''ab'') i k"
    by (simp add: separator_at_def str_def)
  show ?thesis
    using at first none
      extractDirectiveComment_separator [of "str ''a --- b''" 1 3]
      extractDirectiveComment_separator [of "str ''ab''"]
    by blast
qed

subsection \<open>The position index\<close>

lemma match_end_pair [simp]: "match_end (a, b) = a + b"
  by (simp add: match_end_def)

lemma linebreak_matches_ends:
  "sorted_wrt (<) (map match_end (linebreak_matches t pos)) \<and>
   (\<forall>e\<in>set (map match_end (linebreak_matches t pos)). pos < e \<and> e \<le> pos + length t)"
proof (induction t pos rule: linebreak_matches.induct)
  case (1 pos)
  then show ?case by simp
next
  case (2 c pos)
  then show ?case by simp
next
  case (3 c d cs pos)
  show ?case
  proof (cases "c = 13 \<and> d = 10")
    case True
    from 3(1) [OF True] have ih: "sorted_wrt (<) (map match_end (linebreak_matches cs (pos + 2)))"
      "\<forall>e\<in>set (map match_end (linebreak_matches cs (pos + 2))). pos + 2 < e \<and> e \<le> pos + 2 + length cs"
      by simp_all
    from True have eq: "linebreak_matches (c # d # cs) pos = (pos, 2) # linebreak_matches cs (pos + 2)"
      by simp
    show ?thesis unfolding eq using ih by auto
  next
    case False
    show ?thesis
    proof (cases "is_linebreak c")
      case lb: True
      from 3(2) [OF False lb] have ih: "sorted_wrt (<) (map match_end (linebreak_matches (d # cs) (pos + 1)))"
        "\<forall>e\<in>set (map match_end (linebreak_matches (d # cs) (pos + 1))). pos + 1 < e \<and> e \<le> pos + 1 + length (d # cs)"
        by simp_all
      from False lb have eq: "linebreak_matches (c # d # cs) pos = (pos, 1) # linebreak_matches (d # cs) (pos + 1)"
        by auto
      show ?thesis unfolding eq using ih by auto
    next
      case nlb: False
      from 3(3) [OF False nlb] have ih: "sorted_wrt (<) (map match_end (linebreak_matches (d # cs) (pos + 1)))"
        "\<forall>e\<in>set (map match_end (linebreak_matches (d # cs) (pos + 1))). pos + 1 < e \<and> e \<le> pos + 1 + length (d # cs)"
        by simp_all
      from False nlb have eq: "linebreak_matches (c # d # cs) pos = linebreak_matches (d # cs) (pos + 1)"
        by auto
      show ?thesis unfolding eq using ih by auto
    qed
  qed
qed

lemma foldl_line_step_snd:
  "snd (foldl (line_step t) (ls, ss) ms) = ss @ map match_end ms"
  by (induction ms arbitrary: ls ss) (simp_all add: line_step_def split: prod.splits)

lemma foldl_line_step_fst:
  "length (fst (foldl (line_step t) (ls, ss) ms)) = length ls + length ms"
  by (induction ms arbitrary: ls ss) (simp_all add: line_step_def split: prod.splits)

lemma newSourceCode_line_table_ok:
  "line_table_ok (newSourceCode shebangPattern text tokens comments)"
proof -
  define t where "t = (if (case text of [] \<Rightarrow> False | c # _ \<Rightarrow> c = 65279) then drop 1 text else text)"
  define ms where "ms = linebreak_matches t 0"
  define acc where "acc = foldl (line_step t) ([], [0]) ms"
  have starts: "snd acc = 0 # map match_end ms"
    unfolding acc_def by (simp add: foldl_line_step_snd)
  have len: "length (fst acc) = length ms"
    unfolding acc_def by (simp add: foldl_line_step_fst)
  have ends: "sorted_wrt (<) (map match_end ms)"
    "\<forall>e\<in>set (map match_end ms). 0 < e \<and> e \<le> length t"
    using linebreak_matches_ends [of t 0] unfolding ms_def by auto
  have last_le: "last (snd acc) \<le> length t"
    using ends(2) starts by (cases "map match_end ms = []") (auto simp: last_map)
  have sc: "lineStartIndices (newSourceCode shebangPattern text tokens comments) = snd acc"
    "sc_text (newSourceCode shebangPattern text tokens comments) = t"
    "lines (newSourceCode shebangPattern text tokens comments) =
       fst acc @ [slice t (last (snd acc)) (length t)]"
    unfolding newSourceCode_def Let_def acc_def ms_def t_def by simp_all
  show ?thesis
    unfolding line_table_ok_def sc
    using starts len ends last_le
    by (auto simp: list_all_iff slice_def)
qed

lemma findIndex_eqI:
  "i < length xs \<Longrightarrow> P (xs ! i) \<Longrightarrow> (\<forall>j<i. \<not> P (xs ! j)) \<Longrightarrow> findIndex P xs = int i"
proof (induction xs arbitrary: i)
  case Nil
  then show ?case by simp
next
  case (Cons x xs)
  show ?case
  proof (cases i)
    case 0
    with Cons.prems show ?thesis by simp
  next
    case (Suc i')
    with Cons.prems have "\<not> P x" by auto
    moreover from Suc Cons.prems have "findIndex P xs = int i'"
      by (intro Cons.IH) auto
    ultimately show ?thesis using Suc by (simp add: Let_def)
  qed
qed

lemma nat_int_pred [simp]: "nat (int n - 1) = n - 1"
  by (cases n) simp_all

lemma js_nth_last:
  "xs \<noteq> [] \<Longrightarrow> js_nth xs (int (length xs) - 1) = Some (last xs)"
  by (cases xs rule: rev_cases) (auto simp: js_nth_def nth_append)

lemma js_nth_nat: "i < length xs \<Longrightarrow> js_nth xs (int i) = Some (xs ! i)"
  by (simp add: js_nth_def)

lemma strict_nth_le:
  "sorted_wrt (<) (S :: nat list) \<Longrightarrow> i \<le> j \<Longrightarrow> j < length S \<Longrightarrow> S ! i \<le> S ! j"
  by (cases "i = j") (auto simp: sorted_wrt_iff_nth_less less_imp_le)

text \<open>The line of an offset before the last line start: the first start beyond it.\<close>

lemma line_of_offset:
  assumes "sorted_wrt (<) (S :: nat list)" and "S \<noteq> []" and "hd S = 0" and "k < last S"
  shows "\<exists>i. 1 \<le> i \<and> i < length S \<and> S ! (i - 1) \<le> k \<and> k < S ! i \<and>
             findIndex (\<lambda>el. int k < int el) S = int i"
proof -
  let ?Q = "\<lambda>i. i < length S \<and> k < S ! i"
  define i where "i = (LEAST i. ?Q i)"
  have ex: "?Q (length S - 1)"
    using assms(2,4) by (simp add: last_conv_nth)
  then have Qi: "?Q i" unfolding i_def by (rule LeastI)
  have min: "\<not> ?Q j" if "j < i" for j
    using that not_less_Least unfolding i_def by blast
  have "S ! 0 = 0" using assms(2,3) by (simp add: hd_conv_nth)
  then have "i \<noteq> 0" using Qi by (cases "i = 0") auto
  then have i1: "1 \<le> i" by simp
  have before: "S ! (i - 1) \<le> k"
    using min [of "i - 1"] Qi i1 by auto
  have "\<forall>j<i. \<not> int k < int (S ! j)"
    using min Qi by auto
  with Qi have "findIndex (\<lambda>el. int k < int el) S = int i"
    by (intro findIndex_eqI) auto
  with i1 Qi before show ?thesis by blast
qed

lemma index_round_trip:
  assumes ok: "line_table_ok sc" and k0: "0 \<le> k" and kL: "k \<le> int (length (sc_text sc))"
  shows "\<exists>loc. getLocFromIndex sc k = Inr loc \<and> getIndexFromLoc sc loc = Inr k"
proof -
  let ?S = "lineStartIndices sc" and ?L = "length (sc_text sc)"
  let ?n = "length ?S"
  from ok have S: "?S \<noteq> []" "hd ?S = 0" "sorted_wrt (<) ?S"
    and bound: "\<forall>s\<in>set ?S. s \<le> ?L"
    and ll: "length (lines sc) = ?n" "length (last (lines sc)) = ?L - last ?S"
    by (auto simp: line_table_ok_def list_all_iff)
  have n: "0 < ?n" using S(1) by simp
  have lastS: "last ?S = ?S ! (?n - 1)" using S(1) by (simp add: last_conv_nth)
  have last_le: "last ?S \<le> ?L" using bound S(1) by simp
  show ?thesis
  proof (cases "k = int ?L")
    case True
    have "lines sc \<noteq> []" using ll(1) n by auto
    then have "js_nth (lines sc) (int (length (lines sc)) - 1) = Some (last (lines sc))"
      by (rule js_nth_last)
    with True have loc: "getLocFromIndex sc k = Inr (int ?n, int (?L - last ?S))"
      by (simp add: getLocFromIndex_def ll)
    have "getIndexFromLoc sc (int ?n, int (?L - last ?S)) = Inr k"
      using n True last_le lastS by (simp add: getIndexFromLoc_def Let_def nat_diff_distrib)
    with loc show ?thesis by blast
  next
    case False
    with k0 kL obtain m where m: "k = int m" "m < ?L" by (metis nat_less_iff nat_0_le order_le_less zless_nat_conj zero_le_imp_eq_int)
    have jl: "js_nth ?S (int ?n - 1) = Some (last ?S)" using S(1) by (rule js_nth_last)
    show ?thesis
    proof (cases "last ?S \<le> m")
      case True
      have "js_nth ?S (int ?n - 1) = Some (?S ! (?n - 1))" using jl lastS by simp
      with True m lastS jl have loc: "getLocFromIndex sc k = Inr (int ?n, k - int (last ?S))"
        by (simp add: getLocFromIndex_def Let_def)
      have "getIndexFromLoc sc (int ?n, k - int (last ?S)) = Inr k"
        using n m lastS by (simp add: getIndexFromLoc_def Let_def nat_diff_distrib)
      with loc show ?thesis by blast
    next
      case False
      then have "m < last ?S" by simp
      from line_of_offset [OF S(3) S(1) S(2) this] obtain i where
        i: "1 \<le> i" "i < ?n" "?S ! (i - 1) \<le> m" "m < ?S ! i"
        "findIndex (\<lambda>el. int m < int el) ?S = int i" by blast
      have "js_nth ?S (int i - 1) = Some (?S ! (i - 1))"
        using i(1,2) js_nth_nat [of "i - 1" ?S] by (simp add: of_nat_diff)
      with False m jl i(5) have loc: "getLocFromIndex sc k = Inr (int i, k - int (?S ! (i - 1)))"
        by (simp add: getLocFromIndex_def Let_def)
      have "getIndexFromLoc sc (int i, k - int (?S ! (i - 1))) = Inr k"
        using i m by (simp add: getIndexFromLoc_def Let_def)
      with loc show ?thesis by blast
    qed
  qed
qed

lemma loc_round_trip:
  assumes ok: "line_table_ok sc" and idx: "getIndexFromLoc sc (l, c) = Inr k" and c0: "0 \<le> c"
  shows "getLocFromIndex sc k = Inr (l, c)"
proof -
  let ?S = "lineStartIndices sc" and ?L = "length (sc_text sc)"
  let ?n = "length ?S"
  from ok have S: "?S \<noteq> []" "hd ?S = 0" "sorted_wrt (<) ?S"
    and bound: "\<forall>s\<in>set ?S. s \<le> ?L"
    and ll: "length (lines sc) = ?n" "length (last (lines sc)) = ?L - last ?S"
    by (auto simp: line_table_ok_def list_all_iff)
  have n: "0 < ?n" using S(1) by simp
  have lastS: "last ?S = ?S ! (?n - 1)" using S(1) by (simp add: last_conv_nth)
  have last_le: "last ?S \<le> ?L" using bound S(1) by simp
  have jl: "js_nth ?S (int ?n - 1) = Some (last ?S)" using S(1) by (rule js_nth_last)
  from idx have l1: "1 \<le> l" and ln: "l \<le> int ?n"
    by (auto simp: getIndexFromLoc_def Let_def split: if_splits)
  then obtain i where i: "l = int i" "1 \<le> i" "i \<le> ?n"
    by (metis nat_le_iff nat_0_le nat_one_as_int order_trans zero_le_one nat_mono int_nat_eq)
  from idx i have k: "k = int (?S ! (i - 1)) + c"
    by (auto simp: getIndexFromLoc_def Let_def split: if_splits)
  show ?thesis
  proof (cases "i = ?n")
    case True
    with idx i k have kL: "k \<le> int ?L"
      by (auto simp: getIndexFromLoc_def Let_def split: if_splits)
    have klast: "k = int (last ?S) + c" using k True lastS by simp
    show ?thesis
    proof (cases "k = int ?L")
      case kl: True
      have "lines sc \<noteq> []" using ll(1) n by auto
      then have "js_nth (lines sc) (int (length (lines sc)) - 1) = Some (last (lines sc))"
        by (rule js_nth_last)
      moreover have "int (?L - last ?S) = c" using klast kl last_le by simp
      ultimately show ?thesis using kl True i
        by (simp add: getLocFromIndex_def ll)
    next
      case False
      with kL klast c0 jl True i show ?thesis
        by (simp add: getLocFromIndex_def Let_def)
    qed
  next
    case False
    with i have iln: "i < ?n" by simp
    with idx i k have kend: "k < int (?S ! i)"
      by (auto simp: getIndexFromLoc_def Let_def split: if_splits)
    have "?S ! i \<le> last ?S" using strict_nth_le [OF S(3), of i "?n - 1"] iln lastS by simp
    with kend have k_last: "k < int (last ?S)" by simp
    with last_le have kL: "k < int ?L" by simp
    have k0: "0 \<le> k" using k c0 by simp
    then obtain m where m: "k = int m" by (metis nat_0_le)
    have lo: "?S ! (i - 1) \<le> m" using k c0 m by simp
    have "\<forall>j<i. \<not> int m < int (?S ! j)"
    proof (intro allI impI)
      fix j assume "j < i"
      then have "?S ! j \<le> ?S ! (i - 1)" using strict_nth_le [OF S(3), of j "i - 1"] iln by simp
      with lo show "\<not> int m < int (?S ! j)" by simp
    qed
    with iln kend m have fi: "findIndex (\<lambda>el. int m < int el) ?S = int i"
      by (intro findIndex_eqI) auto
    have "js_nth ?S (int i - 1) = Some (?S ! (i - 1))"
      using i(2) iln js_nth_nat [of "i - 1" ?S] by (simp add: of_nat_diff)
    with fi jl k_last kL k0 m k i show ?thesis
      by (simp add: getLocFromIndex_def Let_def)
  qed
qed

text \<open>
  Both directions of the round trip on an object the constructor built: every offset
  \<open>0 \<le> k \<le> length text\<close> has a location that maps back to it, and every location with a
  column \<open>\<ge> 0\<close> that \<open>getIndexFromLoc\<close> accepts is the location of its offset.
\<close>

lemma getIndexFromLoc_getLocFromIndex:
  assumes "0 \<le> k" and "k \<le> int (length (sc_text (newSourceCode shebangPattern text tokens comments)))"
  shows "\<exists>loc. getLocFromIndex (newSourceCode shebangPattern text tokens comments) k = Inr loc \<and>
           getIndexFromLoc (newSourceCode shebangPattern text tokens comments) loc = Inr k"
  using index_round_trip [OF newSourceCode_line_table_ok assms] .

lemma getLocFromIndex_getIndexFromLoc:
  assumes "getIndexFromLoc (newSourceCode shebangPattern text tokens comments) (l, c) = Inr k"
    and "0 \<le> c"
  shows "getLocFromIndex (newSourceCode shebangPattern text tokens comments) k = Inr (l, c)"
  using loc_round_trip [OF newSourceCode_line_table_ok assms] .

text \<open>
  C1 at a location with a negative column, in the text \<open>a\<newline>b\<close>: \<open>getIndexFromLoc\<close> accepts
  line 2, column \<open>-1\<close> and returns offset 1, the line break of line 1, and
  \<open>getLocFromIndex\<close> maps that offset to line 1, column 1.
\<close>

theorem getIndexFromLoc_negative_column:
  "getIndexFromLoc (newSourceCode Map.empty (str ''a\<newline>b'') [] []) (2, - 1) = Inr 1
   \<and> getLocFromIndex (newSourceCode Map.empty (str ''a\<newline>b'') [] []) 1 = Inr (1, 1)"
  by (simp add: getIndexFromLoc_def getLocFromIndex_def newSourceCode_def str_def
      line_step_def is_linebreak_def slice_def sortedMerge_def sortedMerge_loop.simps
      js_nth_def Let_def)

subsection \<open>Cursor composition\<close>

lemma getAllTokens_loop_acc:
  "getAllTokens_loop c acc = acc @ getAllTokens_loop c []"
proof (induction "remaining c" arbitrary: c acc rule: less_induct)
  case less
  obtain retv c' where m: "moveNext c = (retv, c')" by (cases "moveNext c")
  show ?case
  proof (cases retv)
    case False
    with m show ?thesis by (simp add: getAllTokens_loop.simps [of c])
  next
    case True
    with m have "remaining c' < remaining c" by (intro moveNext_True_less) simp
    then have "getAllTokens_loop c' (acc @ [current c']) =
                 (acc @ [current c']) @ getAllTokens_loop c' []"
      and "getAllTokens_loop c' [current c'] = [current c'] @ getAllTokens_loop c' []"
      by (rule less)+
    with m True show ?thesis by (simp add: getAllTokens_loop.simps [of c])
  qed
qed

text \<open>One round of the generic loop.\<close>

lemma Cursor_getAllTokens_unfold:
  "Cursor_getAllTokens c =
     (case moveNext c of (retv, c') \<Rightarrow>
        if retv then current c' # Cursor_getAllTokens c' else [])"
proof -
  obtain retv c' where m: "moveNext c = (retv, c')" by (cases "moveNext c")
  show ?thesis
    using m getAllTokens_loop_acc [of c' "[current c']"]
    by (simp add: Cursor_getAllTokens_def getAllTokens_loop.simps [of c])
qed

lemma Cursor_getAllTokens_cong:
  "moveNext c = moveNext d \<Longrightarrow> Cursor_getAllTokens c = Cursor_getAllTokens d"
  by (simp add: Cursor_getAllTokens_unfold [of c] Cursor_getAllTokens_unfold [of d])

lemma FilterCursor_yields:
  "Cursor_getAllTokens (FilterCursor cur c predicate) = filter predicate (Cursor_getAllTokens c)"
proof (induction "remaining c" arbitrary: c cur rule: less_induct)
  case less
  obtain retv c' where m: "moveNext c = (retv, c')" by (cases "moveNext c")
  show ?case
  proof (cases retv)
    case False
    with m show ?thesis
      by (simp add: Cursor_getAllTokens_unfold [of c]
          Cursor_getAllTokens_unfold [of "FilterCursor cur c predicate"] moveNext.simps)
  next
    case True
    with m have lt: "remaining c' < remaining c" by (intro moveNext_True_less) simp
    have ih: "Cursor_getAllTokens (FilterCursor (current c') c' predicate) =
                filter predicate (Cursor_getAllTokens c')"
      using lt by (rule less)
    show ?thesis
    proof (cases "predicate (current c')")
      case p: True
      with m True ih show ?thesis
        by (simp add: Cursor_getAllTokens_unfold [of c]
            Cursor_getAllTokens_unfold [of "FilterCursor cur c predicate"] moveNext.simps)
    next
      case np: False
      with m True have "moveNext (FilterCursor cur c predicate) =
          moveNext (FilterCursor (current c') c' predicate)"
        by (simp add: moveNext.simps(2) [of cur c])
      then have "Cursor_getAllTokens (FilterCursor cur c predicate) =
          Cursor_getAllTokens (FilterCursor (current c') c' predicate)"
        by (rule Cursor_getAllTokens_cong)
      with m True np ih show ?thesis
        by (simp add: Cursor_getAllTokens_unfold [of c])
    qed
  qed
qed

lemma SkipCursor_yields:
  "Cursor_getAllTokens (SkipCursor cur c n) = drop (nat n) (Cursor_getAllTokens c)"
proof (induction "remaining c" arbitrary: c cur n rule: less_induct)
  case less
  obtain retv c' where m: "moveNext c = (retv, c')" by (cases "moveNext c")
  show ?case
  proof (cases retv)
    case False
    with m show ?thesis
      by (simp add: Cursor_getAllTokens_unfold [of c]
          Cursor_getAllTokens_unfold [of "SkipCursor cur c n"] moveNext.simps)
  next
    case True
    with m have lt: "remaining c' < remaining c" by (intro moveNext_True_less) simp
    show ?thesis
    proof (cases "n > 0")
      case pos: True
      have ih: "Cursor_getAllTokens (SkipCursor (current c') c' (n - 1)) =
                  drop (nat (n - 1)) (Cursor_getAllTokens c')"
        using lt by (rule less)
      from m True pos have "moveNext (SkipCursor cur c n) =
          moveNext (SkipCursor (current c') c' (n - 1))"
        by (simp add: moveNext.simps(3) [of cur c])
      then have "Cursor_getAllTokens (SkipCursor cur c n) =
          Cursor_getAllTokens (SkipCursor (current c') c' (n - 1))"
        by (rule Cursor_getAllTokens_cong)
      moreover from pos have "nat n = Suc (nat (n - 1))" by simp
      ultimately show ?thesis using m True ih
        by (simp add: Cursor_getAllTokens_unfold [of c])
    next
      case npos: False
      have ih: "Cursor_getAllTokens (SkipCursor (current c') c' n) =
                  drop (nat n) (Cursor_getAllTokens c')"
        using lt by (rule less)
      with m True npos show ?thesis
        by (simp add: Cursor_getAllTokens_unfold [of c]
            Cursor_getAllTokens_unfold [of "SkipCursor cur c n"] moveNext.simps)
    qed
  qed
qed

lemma LimitCursor_yields:
  "Cursor_getAllTokens (LimitCursor cur c n) = take (nat n) (Cursor_getAllTokens c)"
proof (induction "remaining c" arbitrary: c cur n rule: less_induct)
  case less
  obtain retv c' where m: "moveNext c = (retv, c')" by (cases "moveNext c")
  show ?case
  proof (cases "n > 0")
    case npos: False
    then show ?thesis
      by (simp add: Cursor_getAllTokens_unfold [of "LimitCursor cur c n"] moveNext.simps)
  next
    case pos: True
    show ?thesis
    proof (cases retv)
      case False
      with m pos show ?thesis
        by (simp add: Cursor_getAllTokens_unfold [of c]
            Cursor_getAllTokens_unfold [of "LimitCursor cur c n"] moveNext.simps)
    next
      case True
      with m have lt: "remaining c' < remaining c" by (intro moveNext_True_less) simp
      have ih: "Cursor_getAllTokens (LimitCursor (current c') c' (n - 1)) =
                  take (nat (n - 1)) (Cursor_getAllTokens c')"
        using lt by (rule less)
      from pos have "nat n = Suc (nat (n - 1))" by simp
      with m True pos ih show ?thesis
        by (simp add: Cursor_getAllTokens_unfold [of c]
            Cursor_getAllTokens_unfold [of "LimitCursor cur c n"] moveNext.simps)
    qed
  qed
qed

text \<open>
  The override of \<open>ForwardTokenCursor\<close> returns what the generic loop yields, when the
  cursor's indices are those of existing tokens.
\<close>

lemma js_slice_step:
  assumes "0 \<le> index" "index \<le> indexEnd" "indexEnd < int (length xs)"
  shows "js_slice xs index (indexEnd + 1) = xs ! nat index # js_slice xs (index + 1) (indexEnd + 1)"
proof -
  have k: "nat index < length xs" using assms by simp
  have "take (nat (indexEnd + 1 - index)) (drop (nat index) xs) =
        xs ! nat index # take (nat (indexEnd + 1 - (index + 1))) (drop (nat (index + 1)) xs)"
  proof -
    have "drop (nat index) xs = xs ! nat index # drop (Suc (nat index)) xs"
      using k by (simp add: Cons_nth_drop_Suc)
    moreover have "nat (indexEnd + 1 - index) = Suc (nat (indexEnd + 1 - (index + 1)))"
      using assms by simp
    moreover have "nat (index + 1) = Suc (nat index)" using assms by simp
    ultimately show ?thesis by simp
  qed
  then show ?thesis using assms by (simp add: js_slice_def Let_def min_def)
qed

lemma ForwardTokenCursor_getAllTokens:
  "0 \<le> index \<Longrightarrow> - 1 \<le> indexEnd \<Longrightarrow> indexEnd < int (length tokens) \<Longrightarrow>
     getAllTokens (ForwardTokenCursor cur tokens index indexEnd) =
     Cursor_getAllTokens (ForwardTokenCursor cur tokens index indexEnd)"
proof (induction "nat (indexEnd - index + 1)" arbitrary: cur index)
  case 0
  then have "indexEnd < index" by simp
  with 0 show ?case
    by (simp add: Cursor_getAllTokens_unfold [of "ForwardTokenCursor cur tokens index indexEnd"]
        moveNext.simps js_slice_def Let_def min_def)
next
  case (Suc m)
  then have le: "index \<le> indexEnd" by simp
  have "m = nat (indexEnd - (index + 1) + 1)" using Suc(2) by simp
  from Suc(1) [OF this, of "js_nth tokens index"] Suc(3,4,5)
  have ih: "getAllTokens (ForwardTokenCursor (js_nth tokens index) tokens (index + 1) indexEnd) =
      Cursor_getAllTokens (ForwardTokenCursor (js_nth tokens index) tokens (index + 1) indexEnd)"
    by simp
  have cur: "js_nth tokens index = Some (tokens ! nat index)"
    using Suc(3,5) le by (simp add: js_nth_def)
  show ?case
    using le ih cur js_slice_step [OF Suc(3) le Suc(5)]
    by (simp add: Cursor_getAllTokens_unfold [of "ForwardTokenCursor cur tokens index indexEnd"]
        moveNext.simps)
qed

text \<open>
  C5: the tokens a cursor from \<open>createCursor\<close> yields are those of the base cursor that
  satisfy the predicate (all of them without a predicate), without the first \<open>skip\<close> of
  them, cut to the first \<open>count\<close>; \<open>skip < 1\<close> skips nothing, and \<open>count < 0\<close> applies no
  limit, so that every remaining matching token is yielded.
\<close>

theorem createCursor_yields:
  "Cursor_getAllTokens
     (createCursor factory tokens comments indexMap startLoc endLoc includeComments
        filter_opt skip count) =
   (if count \<ge> 0 then take (nat count) else id)
     ((if skip \<ge> 1 then drop (nat skip) else id)
        ((case filter_opt of Some predicate \<Rightarrow> filter predicate | None \<Rightarrow> id)
           (Cursor_getAllTokens
              (createBaseCursor factory tokens comments indexMap startLoc endLoc
                 includeComments))))"
  by (simp add: createCursor_def Let_def FilterCursor_yields SkipCursor_yields
      LimitCursor_yields split: option.split)

theorem createCursor_yields_witness:
  "Cursor_getAllTokens
     (createCursor
        \<lparr>TokenCursor = new_ForwardTokenCursor, TokenCommentCursor = new_ForwardTokenCursor\<rparr>
        [\<lparr>tok_type = str ''Keyword'', tok_value = str ''var'', tok_range = (0, 3)\<rparr>,
         \<lparr>tok_type = str ''Identifier'', tok_value = str ''x'', tok_range = (4, 5)\<rparr>,
         \<lparr>tok_type = str ''Punctuator'', tok_value = str ''='', tok_range = (6, 7)\<rparr>,
         \<lparr>tok_type = str ''Numeric'', tok_value = str ''1'', tok_range = (8, 9)\<rparr>,
         \<lparr>tok_type = str ''Punctuator'', tok_value = str '';'', tok_range = (9, 10)\<rparr>]
        [] Map.empty (- 1) (- 1) False
        (Some (\<lambda>t. map_option tok_type t \<noteq> Some (str ''Punctuator''))) 1 1) =
   [Some \<lparr>tok_type = str ''Identifier'', tok_value = str ''x'', tok_range = (4, 5)\<rparr>]"
proof -
  let ?tokens = "[\<lparr>tok_type = str ''Keyword'', tok_value = str ''var'', tok_range = (0, 3)\<rparr>,
         \<lparr>tok_type = str ''Identifier'', tok_value = str ''x'', tok_range = (4, 5)\<rparr>,
         \<lparr>tok_type = str ''Punctuator'', tok_value = str ''='', tok_range = (6, 7)\<rparr>,
         \<lparr>tok_type = str ''Numeric'', tok_value = str ''1'', tok_range = (8, 9)\<rparr>,
         \<lparr>tok_type = str ''Punctuator'', tok_value = str '';'', tok_range = (9, 10)\<rparr>]"
  let ?factory = "\<lparr>TokenCursor = new_ForwardTokenCursor,
                  TokenCommentCursor = new_ForwardTokenCursor\<rparr>"
  have base: "Cursor_getAllTokens
      (createBaseCursor ?factory ?tokens [] Map.empty (- 1) (- 1) False) = map Some ?tokens"
    by (simp add: createBaseCursor_def new_ForwardTokenCursor_def getFirstIndex_def
        getLastIndex_def Cursor_getAllTokens_def getAllTokens_loop.simps moveNext.simps
        js_nth_def)
  show ?thesis
    unfolding createCursor_yields base by (simp add: str_def)
qed

subsection \<open>Suppressed messages\<close>

lemma distinguishSuppressedMessages_filter:
  "distinguishSuppressedMessages slots problems =
     (filter (\<lambda>p. suppressions p = None) problems,
      slots\<lparr>lastSuppressedMessages := filter (\<lambda>p. suppressions p \<noteq> None) problems\<rparr>)"
  by (simp add: distinguishSuppressedMessages_def foldl_distinguish_step)

text \<open>
  C10: whichever method \<open>verify\<close> takes, when that method produces \<open>problems\<close>, \<open>verify\<close>
  returns exactly the problems without the property \<open>suppressions\<close>, in their order,
  and afterwards \<open>getSuppressedMessages\<close> returns exactly the problems with it.
\<close>

theorem verify_distinguishes_suppressed:
  assumes "verify_problems env paths state args = (Inr problems, slots, trace)"
  shows "fst (verify env paths state args) = Inr (filter (\<lambda>p. suppressions p = None) problems)
       \<and> getSuppressedMessages (fst (snd (verify env paths state args))) =
           filter (\<lambda>p. suppressions p \<noteq> None) problems"
  using assms
  by (simp add: verify_def distinguishSuppressedMessages_filter getSuppressedMessages_def)

theorem verify_distinguishes_suppressed_witness:
  "\<forall>env slots trace input config options.
     fst (verify env
       (\<lambda>path state args. (Inr
          [\<lparr>ruleId = Some (str ''no-var''), fatal = None, severity = 2,
            message = str ''Unexpected var.'', line = Some 1, column = Some 1,
            endLine = None, endColumn = None, nodeType = None, fix_prop = None,
            suggestions = None, suppressions = None\<rparr>,
           \<lparr>ruleId = Some (str ''semi''), fatal = None, severity = 2,
            message = str ''Missing semicolon.'', line = Some 2, column = Some 8,
            endLine = None, endColumn = None, nodeType = None, fix_prop = None,
            suggestions = None,
            suppressions = Some [\<lparr>kind = str ''directive'', justification = []\<rparr>]\<rparr>],
          fst state, snd state))
       (slots, trace)
       \<lparr>va_textOrSourceCode = input, va_config = config, va_has_extractConfig = False,
        va_has_processor = True, va_options = options\<rparr>) =
     Inr [\<lparr>ruleId = Some (str ''no-var''), fatal = None, severity = 2,
            message = str ''Unexpected var.'', line = Some 1, column = Some 1,
            endLine = None, endColumn = None, nodeType = None, fix_prop = None,
            suggestions = None, suppressions = None\<rparr>]"
proof (intro allI)
  fix env :: Collaborators and slots :: LinterInternalSlots and trace :: LintTrace
    and input config options
  let ?p1 = "\<lparr>ruleId = Some (str ''no-var''), fatal = None, severity = 2,
            message = str ''Unexpected var.'', line = Some 1, column = Some 1,
            endLine = None, endColumn = None, nodeType = None, fix_prop = None,
            suggestions = None, suppressions = None\<rparr>"
  let ?p2 = "\<lparr>ruleId = Some (str ''semi''), fatal = None, severity = 2,
            message = str ''Missing semicolon.'', line = Some 2, column = Some 8,
            endLine = None, endColumn = None, nodeType = None, fix_prop = None,
            suggestions = None,
            suppressions = Some [\<lparr>kind = str ''directive'', justification = []\<rparr>]\<rparr>"
  let ?paths = "\<lambda>(path :: VerifyPath) (state :: LinterInternalSlots \<times> LintTrace) (args :: VerifyArgs).
     (Inr [?p1, ?p2] :: lint_exception + LintMessage list, fst state, snd state)"
  let ?args = "\<lparr>va_textOrSourceCode = input, va_config = config, va_has_extractConfig = False,
        va_has_processor = True, va_options = options\<rparr>"
  have "verify_problems env ?paths (slots, trace) ?args = (Inr [?p1, ?p2], slots, trace)"
    by (simp add: verify_problems_def verify_path_def)
  from verify_distinguishes_suppressed [OF this]
  show "fst (verify env ?paths (slots, trace) ?args) = Inr [?p1]"
    by simp
qed

subsection \<open>Fatal parse errors\<close>

lemma parse_error_shape:
  assumes "parse shebangPattern the_parser text = Inl problem"
  shows "ruleId problem = None \<and> fatal problem = Some True \<and> severity problem = 2 \<and>
         fix_prop problem = None \<and> suppressions problem = None"
  using assms
  by (auto simp: parse_def Let_def split: sum.splits prod.splits)

lemma parse_error_position:
  assumes "parse shebangPattern the_parser text = Inl problem"
    and "the_parser (textToParse shebangPattern text) = Inl ex"
  shows "line problem = pe_lineNumber ex \<and> column problem = pe_column ex"
  using assms
  by (auto simp: parse_def Let_def split: sum.splits prod.splits)

text \<open>
  C4: when \<open>verify\<close> gets a text, takes \<open>_verifyWithoutProcessors\<close> and the parser of
  the config fails on the text, it returns exactly one problem, with \<open>fatal\<close> true,
  severity 2 and \<open>ruleId\<close> null, at the line and column of the parser's error; no rule
  is created and no listener is called (the log is as before), and nothing is stored as
  suppressed.
\<close>

theorem verify_parse_failure:
  assumes path: "verify_path slots args = WithoutProcessors"
    and is_text: "va_textOrSourceCode args = Text text"
    and res: "resolveParser env (slots\<lparr>lastSourceCode := None\<rparr>)
                (config_or_default (va_config args)) = Some the_parser"
    and fail: "the_parser (textToParse (env_shebangPattern env) text) = Inl ex"
  shows "\<exists>problem.
           verify env paths (slots, trace) args =
             (Inr [problem],
              slots\<lparr>lastSourceCode := None, lastSuppressedMessages := []\<rparr>, trace) \<and>
           fatal problem = Some True \<and> severity problem = 2 \<and> ruleId problem = None \<and>
           line problem = pe_lineNumber ex \<and> column problem = pe_column ex"
proof -
  from fail obtain problem where
    p: "parse (env_shebangPattern env) the_parser text = Inl problem"
    by (auto simp: parse_def Let_def)
  note shape = parse_error_shape [OF p] and pos = parse_error_position [OF p fail]
  have "verify_problems env paths (slots, trace) args =
          (Inr [problem], slots\<lparr>lastSourceCode := None\<rparr>, trace)"
    using path is_text res p
    by (simp add: verify_problems_def verifyWithoutProcessors_def Let_def)
  then have "verify env paths (slots, trace) args =
      (Inr [problem], slots\<lparr>lastSourceCode := None, lastSuppressedMessages := []\<rparr>, trace)"
    using shape by (simp add: verify_def distinguishSuppressedMessages_filter)
  with shape pos show ?thesis by blast
qed

theorem verify_parse_failure_witness:
  "\<forall>env paths.
     \<exists>problem.
       verify env paths
         (\<lparr>lastSourceCode = None, lastSuppressedMessages = [], parserMap = Map.empty,
           ruleMap = Map.empty, configType_flat = False\<rparr>,
          \<lparr>createCalls = [], listenerCalls = []\<rparr>)
         \<lparr>va_textOrSourceCode = Text (str ''var x =''),
          va_config = Some \<lparr>cfg_parser = ParserObject (str ''parser.js'')
              (\<lambda>t. Inl \<lparr>pe_message = str ''Unexpected token'', pe_lineNumber = Some 1,
                          pe_column = Some 8\<rparr>),
            cfg_rules = [(str ''no-var'', \<lparr>entry_severity = 2, entry_options = []\<rparr>)]\<rparr>,
          va_has_extractConfig = False, va_has_processor = False,
          va_options = \<lparr>vo_filename = str ''<input>'', vo_allowInlineConfig = True,
            vo_warnInlineConfig = None, vo_disableFixes = False,
            vo_reportUnusedDisableDirectives = str ''off''\<rparr>\<rparr> =
       (Inr [problem],
        \<lparr>lastSourceCode = None, lastSuppressedMessages = [], parserMap = Map.empty,
          ruleMap = Map.empty, configType_flat = False\<rparr>,
        \<lparr>createCalls = [], listenerCalls = []\<rparr>) \<and>
       fatal problem = Some True \<and> severity problem = 2 \<and> ruleId problem = None \<and>
       line problem = Some 1 \<and> column problem = Some 8"
proof (intro allI)
  fix env :: Collaborators
    and paths :: "VerifyPath \<Rightarrow> LinterInternalSlots \<times> LintTrace \<Rightarrow> VerifyArgs \<Rightarrow> verify_result"
  let ?slots = "\<lparr>lastSourceCode = None, lastSuppressedMessages = [], parserMap = Map.empty,
           ruleMap = Map.empty, configType_flat = False\<rparr>"
  let ?trace = "\<lparr>createCalls = [], listenerCalls = []\<rparr>"
  let ?ex = "\<lparr>pe_message = str ''Unexpected token'', pe_lineNumber = Some 1,
              pe_column = Some 8\<rparr>"
  let ?parser = "\<lambda>t :: jsstring. Inl ?ex :: ParserError + ParseResult"
  let ?args = "\<lparr>va_textOrSourceCode = Text (str ''var x =''),
          va_config = Some \<lparr>cfg_parser = ParserObject (str ''parser.js'') ?parser,
            cfg_rules = [(str ''no-var'', \<lparr>entry_severity = 2, entry_options = []\<rparr>)]\<rparr>,
          va_has_extractConfig = False, va_has_processor = False,
          va_options = \<lparr>vo_filename = str ''<input>'', vo_allowInlineConfig = True,
            vo_warnInlineConfig = None, vo_disableFixes = False,
            vo_reportUnusedDisableDirectives = str ''off''\<rparr>\<rparr>"
  have h1: "verify_path ?slots ?args = WithoutProcessors"
    by (simp add: verify_path_def)
  have h2: "va_textOrSourceCode ?args = Text (str ''var x ='')" by simp
  have h3: "resolveParser env (?slots\<lparr>lastSourceCode := None\<rparr>)
              (config_or_default (va_config ?args)) = Some ?parser"
    by (simp add: resolveParser_def config_or_default_def)
  have h4: "?parser (textToParse (env_shebangPattern env) (str ''var x ='')) = Inl ?ex"
    by simp
  from verify_parse_failure [OF h1 h2 h3 h4, of paths ?trace]
  show "\<exists>problem. verify env paths (?slots, ?trace) ?args = (Inr [problem], ?slots, ?trace) \<and>
       fatal problem = Some True \<and> severity problem = 2 \<and> ruleId problem = None \<and>
       line problem = Some 1 \<and> column problem = Some 8"
    by simp
qed

subsection \<open>Loading the rules\<close>

lemma report_all_extends:
  "report_all rule actions problems = Inr problems' \<Longrightarrow> set problems \<subseteq> set problems'"
proof (induction rule actions problems rule: report_all.induct)
  case (1 rule problems)
  then show ?case by simp
next
  case (2 rule ex rest problems)
  then show ?case by simp
next
  case (3 rule problem rest problems)
  then show ?case by (auto split: if_splits)
qed

lemma call_listeners_extends:
  "call_listeners regs node (problems, trace) = (Inr problems', trace') \<Longrightarrow>
     set problems \<subseteq> set problems' \<and> createCalls trace' = createCalls trace"
proof (induction regs arbitrary: problems trace)
  case Nil
  then show ?case by simp
next
  case (Cons reg regs)
  from Cons.prems obtain mid where
    h: "ruleErrorHandler reg node problems = Inr mid"
    and rest: "call_listeners regs node
        (mid, trace\<lparr>listenerCalls := listenerCalls trace @ [(reg_ruleId reg, reg_selector reg)]\<rparr>) =
        (Inr problems', trace')"
    by (auto simp: Let_def split: sum.splits)
  from h have "set problems \<subseteq> set mid"
    by (auto simp: ruleErrorHandler_def split: sum.splits dest: report_all_extends)
  with Cons.IH [OF rest] show ?case by auto
qed

lemma replay_queue_extends:
  "replay_queue matching_fn regs queue (problems, trace) = (Inr problems', trace') \<Longrightarrow>
     set problems \<subseteq> set problems' \<and> createCalls trace' = createCalls trace"
proof (induction queue arbitrary: problems trace)
  case Nil
  then show ?case by simp
next
  case (Cons traversalInfo queue)
  from Cons.prems obtain mid tr where
    h: "call_listeners (matching_fn regs traversalInfo) (snd traversalInfo) (problems, trace) =
          (Inr mid, tr)"
    and rest: "replay_queue matching_fn regs queue (mid, tr) = (Inr problems', trace')"
    by (auto split: prod.splits sum.splits)
  from call_listeners_extends [OF h] Cons.IH [OF rest] show ?case by auto
qed

text \<open>The problem \<open>runRules\<close> makes for a rule id without a rule.\<close>

lemma missing_rule_problem_fields:
  "createLintingProblem table
     \<lparr>opt_ruleId = Some rule_id, opt_loc = None, opt_message = None, opt_severity = None\<rparr> =
   \<lparr>ruleId = Some rule_id, fatal = None, severity = 2,
    message = createMissingRuleMessage table rule_id,
    line = Some 1, column = Some 1, endLine = Some 1, endColumn = Some 2,
    nodeType = None, fix_prop = None, suggestions = None, suppressions = None\<rparr>"
  by (simp add: createLintingProblem_def DEFAULT_ERROR_LOC_def)

lemma runRules_rule_unknown:
  "entry_severity entry \<noteq> 0 \<Longrightarrow> ruleMapper rule_id = None \<Longrightarrow>
     runRules_rule ruleMapper table filename st (rule_id, entry) =
       (None, st\<lparr>lintingProblems := lintingProblems st @
          [createLintingProblem table
             \<lparr>opt_ruleId = Some rule_id, opt_loc = None, opt_message = None,
              opt_severity = None\<rparr>]\<rparr>)"
  by (simp add: runRules_rule_def)

lemma runRules_rule_keeps_problems:
  "runRules_rule ruleMapper table filename st kv = (r, st') \<Longrightarrow>
     set (lintingProblems st) \<subseteq> set (lintingProblems st')"
  by (cases kv)
    (auto simp: runRules_rule_def Let_def split: if_splits option.splits sum.splits)

lemma runRules_rules_collects:
  "runRules_rules ruleMapper table filename st kvs = (None, st') \<Longrightarrow>
     set (lintingProblems st) \<subseteq> set (lintingProblems st') \<and>
     (\<forall>(rule_id, entry)\<in>set kvs.
        entry_severity entry \<noteq> 0 \<and> ruleMapper rule_id = None \<longrightarrow>
        createLintingProblem table
          \<lparr>opt_ruleId = Some rule_id, opt_loc = None, opt_message = None,
           opt_severity = None\<rparr> \<in> set (lintingProblems st'))"
proof (induction kvs arbitrary: st)
  case Nil
  then show ?case by simp
next
  case (Cons kv kvs)
  from Cons.prems obtain mid where
    step: "runRules_rule ruleMapper table filename st kv = (None, mid)"
    and rest: "runRules_rules ruleMapper table filename mid kvs = (None, st')"
    by (auto split: prod.splits option.splits)
  note ih = Cons.IH [OF rest]
  have keep: "set (lintingProblems st) \<subseteq> set (lintingProblems mid)"
    using step by (rule runRules_rule_keeps_problems)
  have here: "createLintingProblem table
          \<lparr>opt_ruleId = Some (fst kv), opt_loc = None, opt_message = None,
           opt_severity = None\<rparr> \<in> set (lintingProblems st')"
    if "entry_severity (snd kv) \<noteq> 0" "ruleMapper (fst kv) = None"
  proof -
    from runRules_rule_unknown [of "snd kv" ruleMapper "fst kv" table filename st] that step
    have "createLintingProblem table
          \<lparr>opt_ruleId = Some (fst kv), opt_loc = None, opt_message = None,
           opt_severity = None\<rparr> \<in> set (lintingProblems mid)"
      by auto
    with ih show ?thesis by auto
  qed
  show ?case using keep ih here by auto
qed

text \<open>
  C7, as stated, fails for a rule id that is switched off: \<open>runRules\<close> returns before it
  looks the rule up, and no problem is produced.
\<close>

theorem unknown_rule_off_counterexample:
  "runRules (\<lambda>regs traversalInfo. []) Map.empty Map.empty (str ''<input>'')
     (ASTNode (str ''Program'') 1 [])
     [(str ''no-such-rule'', \<lparr>entry_severity = 0, entry_options = []\<rparr>)]
     \<lparr>createCalls = [], listenerCalls = []\<rparr> =
   (Inr [], \<lparr>createCalls = [], listenerCalls = []\<rparr>)"
  by (simp add: runRules_def runRules_rule_def)

text \<open>
  C7 (amended): for a rule id of the configuration whose severity is not \<open>0\<close> and that
  resolves to no rule, the callback of \<open>runRules\<close> throws nothing, registers nothing,
  calls no \<open>create\<close> and appends one problem: severity 2, no \<open>fatal\<close> property, at the
  default location line 1, column 0 (reported as line 1, column 1), with a message that
  names the replacement rules when the id is in the replacement table; and whenever
  \<open>runRules\<close> returns its problems, this problem is among them.
\<close>

theorem unknown_rule_reported:
  assumes "entry_severity entry \<noteq> 0" and "ruleMapper rule_id = None"
  shows "\<exists>p.
     runRules_rule ruleMapper table filename st (rule_id, entry) =
       (None, st\<lparr>lintingProblems := lintingProblems st @ [p]\<rparr>) \<and>
     ruleId p = Some rule_id \<and> severity p = 2 \<and> fatal p = None \<and>
     line p = Some (fst (fst DEFAULT_ERROR_LOC)) \<and>
     column p = Some (snd (fst DEFAULT_ERROR_LOC) + 1) \<and>
     line p = Some 1 \<and> column p = Some 1 \<and>
     message p =
       (case table rule_id of
          Some names \<Rightarrow>
            str ''Rule '' @ [39] @ rule_id @ [39] @ str '' was removed and replaced by: '' @
            join (str '', '') names
        | None \<Rightarrow> str ''Definition for rule '' @ [39] @ rule_id @ [39] @ str '' was not found.'') \<and>
     (\<forall>matching_fn ast configuredRules trace problems trace'.
        (rule_id, entry) \<in> set configuredRules \<longrightarrow>
        runRules matching_fn ruleMapper table filename ast configuredRules trace =
          (Inr problems, trace') \<longrightarrow>
        p \<in> set problems)"
proof -
  let ?p = "createLintingProblem table
     \<lparr>opt_ruleId = Some rule_id, opt_loc = None, opt_message = None, opt_severity = None\<rparr>"
  have step: "runRules_rule ruleMapper table filename st (rule_id, entry) =
       (None, st\<lparr>lintingProblems := lintingProblems st @ [?p]\<rparr>)"
    using assms by (rule runRules_rule_unknown)
  have fields: "ruleId ?p = Some rule_id" "severity ?p = 2" "fatal ?p = None"
    "line ?p = Some 1" "column ?p = Some 1"
    "message ?p = createMissingRuleMessage table rule_id"
    by (simp_all add: missing_rule_problem_fields)
  have run: "?p \<in> set problems"
    if mem: "(rule_id, entry) \<in> set configuredRules"
      and ret: "runRules matching_fn ruleMapper table filename ast configuredRules trace =
          (Inr problems, trace')"
    for matching_fn ast configuredRules trace problems trace'
  proof -
    from ret obtain st' where
      load: "runRules_rules ruleMapper table filename
               \<lparr>lintingProblems = [], emitter = [], run_trace = trace\<rparr> configuredRules =
             (None, st')"
      and replay: "replay_queue matching_fn (emitter st') (nodeQueue_of ast)
             (lintingProblems st', run_trace st') = (Inr problems, trace')"
      by (auto simp: runRules_def split: prod.splits option.splits)
    from runRules_rules_collects [OF load] mem assms
    have "?p \<in> set (lintingProblems st')" by auto
    with replay_queue_extends [OF replay] show ?thesis by auto
  qed
  show ?thesis
    apply (rule exI [of _ ?p])
    using step fields run
    by (simp add: DEFAULT_ERROR_LOC_def createMissingRuleMessage_def)
qed

theorem unknown_rule_reported_witness:
  "\<exists>p. runRules (\<lambda>regs traversalInfo. []) Map.empty
          [str ''generator-star'' \<mapsto> [str ''generator-star-spacing'']] (str ''<input>'')
          (ASTNode (str ''Program'') 1 [])
          [(str ''generator-star'', \<lparr>entry_severity = 2, entry_options = []\<rparr>)]
          \<lparr>createCalls = [], listenerCalls = []\<rparr> =
        (Inr [p], \<lparr>createCalls = [], listenerCalls = []\<rparr>) \<and>
        ruleId p = Some (str ''generator-star'') \<and> severity p = 2 \<and> fatal p = None \<and>
        line p = Some 1 \<and> column p = Some 1 \<and>
        message p =
          str ''Rule '' @ [39] @ str ''generator-star'' @ [39] @
          str '' was removed and replaced by: generator-star-spacing''"
proof -
  let ?table = "[str ''generator-star'' \<mapsto> [str ''generator-star-spacing'']]"
  let ?entry = "\<lparr>entry_severity = 2, entry_options = []\<rparr>"
  let ?st = "\<lparr>lintingProblems = [], emitter = [], run_trace = \<lparr>createCalls = [], listenerCalls = []\<rparr>\<rparr>"
  let ?run = "runRules (\<lambda>regs traversalInfo. []) Map.empty ?table (str ''<input>'')
          (ASTNode (str ''Program'') 1 []) [(str ''generator-star'', ?entry)]
          \<lparr>createCalls = [], listenerCalls = []\<rparr>"
  have h1: "entry_severity ?entry \<noteq> 0" by simp
  have h2: "(Map.empty :: jsstring \<rightharpoonup> Rule) (str ''generator-star'') = None" by simp
  from unknown_rule_reported [OF h1 h2, of ?table "str ''<input>''" ?st]
  obtain p where
    step: "runRules_rule Map.empty ?table (str ''<input>'') ?st (str ''generator-star'', ?entry) =
       (None, ?st\<lparr>lintingProblems := lintingProblems ?st @ [p]\<rparr>)"
    and fields: "ruleId p = Some (str ''generator-star'')" "severity p = 2" "fatal p = None"
      "line p = Some 1" "column p = Some 1"
    and msg: "message p =
       (case ?table (str ''generator-star'') of
          Some names \<Rightarrow>
            str ''Rule '' @ [39] @ str ''generator-star'' @ [39] @
            str '' was removed and replaced by: '' @ join (str '', '') names
        | None \<Rightarrow> str ''Definition for rule '' @ [39] @ str ''generator-star'' @ [39] @
            str '' was not found.'')"
    by blast
  from step have "?run = (Inr [p], \<lparr>createCalls = [], listenerCalls = []\<rparr>)"
    by (simp add: runRules_def)
  moreover from msg have "message p =
          str ''Rule '' @ [39] @ str ''generator-star'' @ [39] @
          str '' was removed and replaced by: generator-star-spacing''"
    by (simp add: str_def)
  ultimately show ?thesis using fields by blast
qed

subsection \<open>Creating the listeners\<close>

lemma call_listeners_createCalls:
  "createCalls (snd (call_listeners regs node (problems, trace))) = createCalls trace"
  by (induction regs arbitrary: problems trace) (simp_all add: Let_def split: sum.splits)

lemma replay_queue_createCalls:
  "createCalls (snd (replay_queue matching_fn regs queue (problems, trace))) = createCalls trace"
proof (induction queue arbitrary: problems trace)
  case Nil
  then show ?case by simp
next
  case (Cons traversalInfo queue)
  obtain r tr where c: "call_listeners (matching_fn regs traversalInfo) (snd traversalInfo)
      (problems, trace) = (r, tr)"
    by (cases "call_listeners (matching_fn regs traversalInfo) (snd traversalInfo) (problems, trace)")
  with call_listeners_createCalls [of "matching_fn regs traversalInfo" "snd traversalInfo"
      problems trace]
  have tr: "createCalls tr = createCalls trace" by simp
  show ?case
  proof (cases r)
    case (Inl err)
    with c tr show ?thesis by simp
  next
    case (Inr mid)
    with c tr Cons.IH [of mid tr] show ?thesis by simp
  qed
qed

lemma runRules_rule_throws_iff:
  "(fst (runRules_rule ruleMapper table filename st kv) = None) =
     (\<not> create_fails ruleMapper filename kv)"
  by (cases kv)
    (auto simp: runRules_rule_def create_fails_def createRuleListeners_def Let_def
      split: option.splits sum.splits)

lemma runRules_rule_calls:
  "createCalls (run_trace (snd (runRules_rule ruleMapper table filename st kv))) =
     createCalls (run_trace st) @ enabled_rule_ids ruleMapper [kv]"
  by (cases kv)
    (auto simp: runRules_rule_def enabled_rule_ids_def Let_def split: option.splits sum.splits)

lemma enabled_rule_ids_Cons:
  "enabled_rule_ids ruleMapper (kv # kvs) =
     enabled_rule_ids ruleMapper [kv] @ enabled_rule_ids ruleMapper kvs"
  by (simp add: enabled_rule_ids_def)

lemma rules_reached_Cons:
  "rules_reached ruleMapper filename (kv # kvs) =
     (if create_fails ruleMapper filename kv then [kv]
      else kv # rules_reached ruleMapper filename kvs)"
  by (simp add: rules_reached_def)

lemma rules_reached_all:
  "list_all (\<lambda>kv. \<not> create_fails ruleMapper filename kv) kvs \<Longrightarrow>
     rules_reached ruleMapper filename kvs = kvs"
  by (induction kvs) (simp_all add: rules_reached_Cons, simp add: rules_reached_def)

lemma rules_reached_first:
  "list_all (\<lambda>kv. \<not> create_fails ruleMapper filename kv) pre \<Longrightarrow>
   create_fails ruleMapper filename kv \<Longrightarrow>
     rules_reached ruleMapper filename (pre @ kv # post) = pre @ [kv]"
  by (induction pre) (simp_all add: rules_reached_Cons)

lemma rules_reached_prefix:
  "\<exists>rest. configuredRules = rules_reached ruleMapper filename configuredRules @ rest"
  unfolding rules_reached_def
  by (metis append.assoc append_take_drop_id takeWhile_dropWhile_id)

text \<open>
  The loop over the configured rules calls \<open>create\<close> for the enabled rules with a rule
  that it gets to, and throws exactly when one of the configured rules fails.
\<close>

lemma runRules_rules_calls:
  "createCalls (run_trace (snd (runRules_rules ruleMapper table filename st kvs))) =
     createCalls (run_trace st) @
     enabled_rule_ids ruleMapper (rules_reached ruleMapper filename kvs)"
proof (induction kvs arbitrary: st)
  case Nil
  then show ?case by (simp add: enabled_rule_ids_def rules_reached_def)
next
  case (Cons kv kvs)
  obtain r mid where step: "runRules_rule ruleMapper table filename st kv = (r, mid)"
    by (cases "runRules_rule ruleMapper table filename st kv")
  from runRules_rule_calls [of ruleMapper table filename st kv] step
  have calls: "createCalls (run_trace mid) =
      createCalls (run_trace st) @ enabled_rule_ids ruleMapper [kv]"
    by simp
  from runRules_rule_throws_iff [of ruleMapper table filename st kv] step
  have fails: "(r = None) = (\<not> create_fails ruleMapper filename kv)" by simp
  show ?case
  proof (cases r)
    case None
    with fails have "\<not> create_fails ruleMapper filename kv" by simp
    with step None calls Cons.IH [of mid]
      enabled_rule_ids_Cons [of ruleMapper kv "rules_reached ruleMapper filename kvs"]
    show ?thesis
      by (simp add: rules_reached_Cons)
  next
    case (Some ex)
    with fails have "create_fails ruleMapper filename kv" by simp
    with step Some calls show ?thesis by (simp add: rules_reached_Cons)
  qed
qed

lemma runRules_rules_throws_iff:
  "(fst (runRules_rules ruleMapper table filename st kvs) = None) =
     list_all (\<lambda>kv. \<not> create_fails ruleMapper filename kv) kvs"
proof (induction kvs arbitrary: st)
  case Nil
  then show ?case by simp
next
  case (Cons kv kvs)
  obtain r mid where step: "runRules_rule ruleMapper table filename st kv = (r, mid)"
    by (cases "runRules_rule ruleMapper table filename st kv")
  with runRules_rule_throws_iff [of ruleMapper table filename st kv] Cons.IH [of mid]
  show ?case by (cases r) simp_all
qed

lemma runRules_rules_append:
  "runRules_rules ruleMapper table filename st (xs @ ys) =
     (case runRules_rules ruleMapper table filename st xs of
        (Some ex, st') \<Rightarrow> (Some ex, st')
      | (None, st') \<Rightarrow> runRules_rules ruleMapper table filename st' ys)"
proof (induction xs arbitrary: st)
  case Nil
  then show ?case by simp
next
  case (Cons kv xs)
  obtain r mid where step: "runRules_rule ruleMapper table filename st kv = (r, mid)"
    by (cases "runRules_rule ruleMapper table filename st kv")
  with Cons.IH [of mid] show ?case by (cases r) simp_all
qed

lemma runRules_rule_nullish:
  assumes "entry_severity entry \<noteq> 0" and "ruleMapper rule_id = Some rule"
    and "create rule \<lparr>ctx_id = rule_id, ctx_options = entry_options entry,
           ctx_filename = filename\<rparr> = Inr v"
    and "v = JsUndefined \<or> v = JsNull"
  shows "runRules_rule ruleMapper table filename st (rule_id, entry) =
     (Some (new_Error (str ''The create() function for rule '' @ [39] @ rule_id @ [39] @
              str '' did not return an object.'')),
      st\<lparr>run_trace := (run_trace st)
            \<lparr>createCalls := createCalls (run_trace st) @ [rule_id]\<rparr>\<rparr>)"
  using assms by (auto simp: runRules_rule_def createRuleListeners_def Let_def)

lemma runRules_rules_first_nullish:
  assumes "list_all (\<lambda>kv. \<not> create_fails ruleMapper filename kv) pre"
    and "entry_severity entry \<noteq> 0" and "ruleMapper rule_id = Some rule"
    and "create rule \<lparr>ctx_id = rule_id, ctx_options = entry_options entry,
           ctx_filename = filename\<rparr> = Inr v"
    and "v = JsUndefined \<or> v = JsNull"
  shows "fst (runRules_rules ruleMapper table filename st (pre @ (rule_id, entry) # post)) =
     Some (new_Error (str ''The create() function for rule '' @ [39] @ rule_id @ [39] @
              str '' did not return an object.''))"
proof -
  obtain r mid where p: "runRules_rules ruleMapper table filename st pre = (r, mid)"
    by (cases "runRules_rules ruleMapper table filename st pre")
  with runRules_rules_throws_iff [of ruleMapper table filename st pre] assms(1)
  have "r = None" by simp
  with p runRules_rule_nullish [of entry ruleMapper rule_id rule filename v table mid] assms(2-5)
  show ?thesis
    by (simp add: runRules_rules_append)
qed

lemma runRules_createCalls:
  "createCalls (snd (runRules matching_fn ruleMapper table filename ast configuredRules trace)) =
     createCalls trace @
     enabled_rule_ids ruleMapper (rules_reached ruleMapper filename configuredRules)"
proof -
  let ?st0 = "\<lparr>lintingProblems = [], emitter = [], run_trace = trace\<rparr>"
  obtain r st where load: "runRules_rules ruleMapper table filename ?st0 configuredRules = (r, st)"
    by (cases "runRules_rules ruleMapper table filename ?st0 configuredRules")
  with runRules_rules_calls [of ruleMapper table filename ?st0 configuredRules]
  have calls: "createCalls (run_trace st) = createCalls trace @
      enabled_rule_ids ruleMapper (rules_reached ruleMapper filename configuredRules)"
    by simp
  show ?thesis
  proof (cases r)
    case (Some ex)
    with load calls show ?thesis by (simp add: runRules_def)
  next
    case None
    with load calls
      replay_queue_createCalls [of matching_fn "emitter st" "nodeQueue_of ast"
        "lintingProblems st" "run_trace st"]
    show ?thesis by (simp add: runRules_def)
  qed
qed

lemma runRules_throws_loading:
  "\<not> list_all (\<lambda>kv. \<not> create_fails ruleMapper filename kv) configuredRules \<Longrightarrow>
     \<exists>ex. fst (runRules matching_fn ruleMapper table filename ast configuredRules trace) = Inl ex"
  using runRules_rules_throws_iff [of ruleMapper table filename
      "\<lparr>lintingProblems = [], emitter = [], run_trace = trace\<rparr>" configuredRules]
  by (auto simp: runRules_def split: prod.splits option.splits)

lemma count_list_distinct:
  "distinct xs \<Longrightarrow> count_list xs x = (if x \<in> set xs then 1 else 0)"
  by (induction xs) auto

lemma enabled_rule_ids_distinct:
  "distinct (map fst kvs) \<Longrightarrow> distinct (enabled_rule_ids ruleMapper kvs)"
  unfolding enabled_rule_ids_def by (rule distinct_map_filter)

text \<open>
  C9, as stated, fails three times: \<open>create\<close> is not called for a configured rule that is
  switched off; a \<open>create\<close> that returns the number 42, neither a function nor an object,
  makes \<open>runRules\<close> return normally, without a listener and without a problem; and after
  the rule \<open>semi\<close>, whose \<open>create\<close> returns \<open>undefined\<close>, has made \<open>runRules\<close> throw,
  \<open>create\<close> is not called for the configured rule \<open>no-var\<close> that follows it.
\<close>

theorem create_counterexample:
  "snd (runRules (\<lambda>regs traversalInfo. [])
          [str ''no-var'' \<mapsto> \<lparr>meta_fixable = True, meta_hasSuggestions = False,
              meta_docs_suggestion = False, create = (\<lambda>context. Inr (JsObject []))\<rparr>]
          Map.empty (str ''<input>'') (ASTNode (str ''Program'') 1 [])
          [(str ''no-var'', \<lparr>entry_severity = 0, entry_options = []\<rparr>)]
          \<lparr>createCalls = [], listenerCalls = []\<rparr>) =
     \<lparr>createCalls = [], listenerCalls = []\<rparr>
   \<and> runRules (\<lambda>regs traversalInfo. [])
          [str ''no-var'' \<mapsto> \<lparr>meta_fixable = True, meta_hasSuggestions = False,
              meta_docs_suggestion = False, create = (\<lambda>context. Inr (JsNumber 42))\<rparr>]
          Map.empty (str ''<input>'') (ASTNode (str ''Program'') 1 [])
          [(str ''no-var'', \<lparr>entry_severity = 2, entry_options = []\<rparr>)]
          \<lparr>createCalls = [], listenerCalls = []\<rparr> =
     (Inr [], \<lparr>createCalls = [str ''no-var''], listenerCalls = []\<rparr>)
   \<and> runRules (\<lambda>regs traversalInfo. [])
          [str ''no-var'' \<mapsto> \<lparr>meta_fixable = True, meta_hasSuggestions = False,
              meta_docs_suggestion = False, create = (\<lambda>context. Inr (JsObject []))\<rparr>,
           str ''semi'' \<mapsto> \<lparr>meta_fixable = True, meta_hasSuggestions = False,
              meta_docs_suggestion = False, create = (\<lambda>context. Inr JsUndefined)\<rparr>]
          Map.empty (str ''<input>'') (ASTNode (str ''Program'') 1 [])
          [(str ''semi'', \<lparr>entry_severity = 2, entry_options = []\<rparr>),
           (str ''no-var'', \<lparr>entry_severity = 2, entry_options = []\<rparr>)]
          \<lparr>createCalls = [], listenerCalls = []\<rparr> =
     (Inl (new_Error (str ''The create() function for rule '' @ [39] @ str ''semi'' @ [39] @
                      str '' did not return an object.'')),
      \<lparr>createCalls = [str ''semi''], listenerCalls = []\<rparr>)"
  by (simp add: runRules_def runRules_rule_def createRuleListeners_def str_def)

text \<open>
  C9 (amended): \<open>runRules\<close> goes through the configured rules in the order of the config,
  up to and including the first rule that is enabled, has a rule and whose \<open>create\<close>
  throws or returns \<open>undefined\<close> or \<open>null\<close>.  It calls \<open>create\<close> for each rule it gets
  to that is enabled (severity not \<open>0\<close>) and has a rule, in that order, and for no other
  rule: as the keys of the config are distinct, exactly once for each of them and never
  for a rule that is switched off, unknown, or behind the failing one.  When no rule
  fails, these are all the enabled rules with a rule.  A failing rule makes \<open>runRules\<close>
  throw instead of returning problems; when its \<open>create\<close> returned \<open>undefined\<close> or
  \<open>null\<close>, the error is \<open>The create() function for rule ... did not return an object.\<close>
\<close>

theorem create_called_once:
  "createCalls (snd (runRules matching_fn ruleMapper table filename ast configuredRules trace)) =
     createCalls trace @
     enabled_rule_ids ruleMapper (rules_reached ruleMapper filename configuredRules) \<and>
   (distinct (map fst configuredRules) \<and> createCalls trace = [] \<longrightarrow>
      count_list
        (createCalls (snd (runRules matching_fn ruleMapper table filename ast configuredRules
                             trace))) rule_id =
        (if rule_id \<in> set (enabled_rule_ids ruleMapper
                              (rules_reached ruleMapper filename configuredRules))
         then 1 else 0)) \<and>
   (list_all (\<lambda>kv. \<not> create_fails ruleMapper filename kv) configuredRules \<longrightarrow>
      rules_reached ruleMapper filename configuredRules = configuredRules) \<and>
   (\<forall>pre kv post.
      configuredRules = pre @ kv # post \<and>
      list_all (\<lambda>kv. \<not> create_fails ruleMapper filename kv) pre \<and>
      create_fails ruleMapper filename kv \<longrightarrow>
        rules_reached ruleMapper filename configuredRules = pre @ [kv] \<and>
        (\<exists>ex. fst (runRules matching_fn ruleMapper table filename ast configuredRules trace) =
           Inl ex)) \<and>
   (\<forall>pre entry post rule.
      configuredRules = pre @ (rule_id, entry) # post \<and>
      list_all (\<lambda>kv. \<not> create_fails ruleMapper filename kv) pre \<and>
      entry_severity entry \<noteq> 0 \<and> ruleMapper rule_id = Some rule \<and>
      (create rule \<lparr>ctx_id = rule_id, ctx_options = entry_options entry,
          ctx_filename = filename\<rparr> = Inr JsUndefined \<or>
       create rule \<lparr>ctx_id = rule_id, ctx_options = entry_options entry,
          ctx_filename = filename\<rparr> = Inr JsNull) \<longrightarrow>
        fst (runRules matching_fn ruleMapper table filename ast configuredRules trace) =
          Inl (new_Error (str ''The create() function for rule '' @ [39] @ rule_id @ [39] @
                 str '' did not return an object.'')))"
proof (intro conjI impI allI)
  show "createCalls (snd (runRules matching_fn ruleMapper table filename ast configuredRules
      trace)) = createCalls trace @
     enabled_rule_ids ruleMapper (rules_reached ruleMapper filename configuredRules)"
    by (rule runRules_createCalls)
next
  assume h: "distinct (map fst configuredRules) \<and> createCalls trace = []"
  obtain rest where "configuredRules = rules_reached ruleMapper filename configuredRules @ rest"
    using rules_reached_prefix by blast
  with h have "distinct (map fst (rules_reached ruleMapper filename configuredRules))"
    by (metis distinct_append map_append)
  from count_list_distinct [OF enabled_rule_ids_distinct [OF this]]
  have "count_list (enabled_rule_ids ruleMapper
                    (rules_reached ruleMapper filename configuredRules)) rule_id =
        (if rule_id \<in> set (enabled_rule_ids ruleMapper
                              (rules_reached ruleMapper filename configuredRules))
         then 1 else 0)" .
  with h runRules_createCalls [of matching_fn ruleMapper table filename ast configuredRules trace]
  show "count_list
        (createCalls (snd (runRules matching_fn ruleMapper table filename ast configuredRules
                             trace))) rule_id =
        (if rule_id \<in> set (enabled_rule_ids ruleMapper
                              (rules_reached ruleMapper filename configuredRules))
         then 1 else 0)"
    by simp
next
  assume "list_all (\<lambda>kv. \<not> create_fails ruleMapper filename kv) configuredRules"
  then show "rules_reached ruleMapper filename configuredRules = configuredRules"
    by (rule rules_reached_all)
next
  fix pre kv post
  assume h: "configuredRules = pre @ kv # post \<and>
      list_all (\<lambda>kv. \<not> create_fails ruleMapper filename kv) pre \<and>
      create_fails ruleMapper filename kv"
  then show "rules_reached ruleMapper filename configuredRules = pre @ [kv]"
    by (simp add: rules_reached_first)
  from h have "\<not> list_all (\<lambda>kv. \<not> create_fails ruleMapper filename kv) configuredRules"
    by simp
  then show "\<exists>ex. fst (runRules matching_fn ruleMapper table filename ast configuredRules trace) =
           Inl ex"
    by (rule runRules_throws_loading)
next
  fix pre entry post rule
  assume h: "configuredRules = pre @ (rule_id, entry) # post \<and>
      list_all (\<lambda>kv. \<not> create_fails ruleMapper filename kv) pre \<and>
      entry_severity entry \<noteq> 0 \<and> ruleMapper rule_id = Some rule \<and>
      (create rule \<lparr>ctx_id = rule_id, ctx_options = entry_options entry,
          ctx_filename = filename\<rparr> = Inr JsUndefined \<or>
       create rule \<lparr>ctx_id = rule_id, ctx_options = entry_options entry,
          ctx_filename = filename\<rparr> = Inr JsNull)"
  then obtain v where v: "create rule \<lparr>ctx_id = rule_id, ctx_options = entry_options entry,
        ctx_filename = filename\<rparr> = Inr v" "v = JsUndefined \<or> v = JsNull"
    by blast
  from h have pre: "list_all (\<lambda>kv. \<not> create_fails ruleMapper filename kv) pre"
    and sev: "entry_severity entry \<noteq> 0" and known: "ruleMapper rule_id = Some rule"
    and cfg: "configuredRules = pre @ (rule_id, entry) # post"
    by simp_all
  from runRules_rules_first_nullish [of ruleMapper filename pre entry rule_id rule v table
      "\<lparr>lintingProblems = [], emitter = [], run_trace = trace\<rparr>" post] pre sev known v
  have "fst (runRules_rules ruleMapper table filename
      \<lparr>lintingProblems = [], emitter = [], run_trace = trace\<rparr>
      (pre @ (rule_id, entry) # post)) =
     Some (new_Error (str ''The create() function for rule '' @ [39] @ rule_id @ [39] @
              str '' did not return an object.''))"
    by blast
  then show "fst (runRules matching_fn ruleMapper table filename ast configuredRules trace) =
          Inl (new_Error (str ''The create() function for rule '' @ [39] @ rule_id @ [39] @
                 str '' did not return an object.''))"
    unfolding cfg by (auto simp: runRules_def split: prod.splits option.splits)
qed

theorem create_called_once_witness:
  "createCalls (snd (runRules (\<lambda>regs traversalInfo. [])
      [str ''no-var'' \<mapsto> \<lparr>meta_fixable = True, meta_hasSuggestions = False,
          meta_docs_suggestion = False,
          create = (\<lambda>context. Inr (JsObject [(str ''VariableDeclaration'', \<lambda>node. [])]))\<rparr>,
       str ''semi'' \<mapsto> \<lparr>meta_fixable = True, meta_hasSuggestions = False,
          meta_docs_suggestion = False, create = (\<lambda>context. Inr JsUndefined)\<rparr>]
      Map.empty (str ''<input>'') (ASTNode (str ''Program'') 1 [])
      [(str ''no-var'', \<lparr>entry_severity = 2, entry_options = []\<rparr>),
       (str ''semi'', \<lparr>entry_severity = 0, entry_options = []\<rparr>)]
      \<lparr>createCalls = [], listenerCalls = []\<rparr>)) = [str ''no-var'']
   \<and> createCalls (snd (runRules (\<lambda>regs traversalInfo. [])
      [str ''no-var'' \<mapsto> \<lparr>meta_fixable = True, meta_hasSuggestions = False,
          meta_docs_suggestion = False,
          create = (\<lambda>context. Inr (JsObject [(str ''VariableDeclaration'', \<lambda>node. [])]))\<rparr>,
       str ''semi'' \<mapsto> \<lparr>meta_fixable = True, meta_hasSuggestions = False,
          meta_docs_suggestion = False, create = (\<lambda>context. Inr JsUndefined)\<rparr>]
      Map.empty (str ''<input>'') (ASTNode (str ''Program'') 1 [])
      [(str ''semi'', \<lparr>entry_severity = 1, entry_options = []\<rparr>),
       (str ''no-var'', \<lparr>entry_severity = 2, entry_options = []\<rparr>)]
      \<lparr>createCalls = [], listenerCalls = []\<rparr>)) = [str ''semi'']
   \<and> fst (runRules (\<lambda>regs traversalInfo. [])
      [str ''no-var'' \<mapsto> \<lparr>meta_fixable = True, meta_hasSuggestions = False,
          meta_docs_suggestion = False,
          create = (\<lambda>context. Inr (JsObject [(str ''VariableDeclaration'', \<lambda>node. [])]))\<rparr>,
       str ''semi'' \<mapsto> \<lparr>meta_fixable = True, meta_hasSuggestions = False,
          meta_docs_suggestion = False, create = (\<lambda>context. Inr JsUndefined)\<rparr>]
      Map.empty (str ''<input>'') (ASTNode (str ''Program'') 1 [])
      [(str ''semi'', \<lparr>entry_severity = 1, entry_options = []\<rparr>),
       (str ''no-var'', \<lparr>entry_severity = 2, entry_options = []\<rparr>)]
      \<lparr>createCalls = [], listenerCalls = []\<rparr>) =
     Inl (new_Error (str ''The create() function for rule '' @ [39] @ str ''semi'' @ [39] @
            str '' did not return an object.''))"
proof -
  let ?good = "\<lparr>meta_fixable = True, meta_hasSuggestions = False,
          meta_docs_suggestion = False,
          create = (\<lambda>context. Inr (JsObject [(str ''VariableDeclaration'', \<lambda>node. [])]))\<rparr>"
  let ?bad = "\<lparr>meta_fixable = True, meta_hasSuggestions = False,
          meta_docs_suggestion = False, create = (\<lambda>context. Inr JsUndefined)\<rparr>"
  let ?mapper = "[str ''no-var'' \<mapsto> ?good, str ''semi'' \<mapsto> ?bad]"
  let ?m = "\<lambda>(regs :: Registration list) (traversalInfo :: bool \<times> ASTNode). [] :: Registration list"
  let ?ast = "ASTNode (str ''Program'') 1 []"
  let ?trace = "\<lparr>createCalls = [], listenerCalls = []\<rparr>"
  let ?off = "\<lparr>entry_severity = 0, entry_options = []\<rparr>"
  let ?warn = "\<lparr>entry_severity = 1, entry_options = []\<rparr>"
  let ?err = "\<lparr>entry_severity = 2, entry_options = []\<rparr>"
  let ?cfg1 = "[(str ''no-var'', ?err), (str ''semi'', ?off)]"
  let ?cfg2 = "[(str ''semi'', ?warn), (str ''no-var'', ?err)]"
  have ne: "str ''semi'' \<noteq> str ''no-var''" by (simp add: str_def)
  have ok1: "list_all (\<lambda>kv. \<not> create_fails ?mapper (str ''<input>'') kv) ?cfg1"
    using ne by (simp add: create_fails_def)
  have ids1: "enabled_rule_ids ?mapper ?cfg1 = [str ''no-var'']"
    using ne by (simp add: enabled_rule_ids_def)
  note inst1 = create_called_once [of ?m ?mapper Map.empty "str ''<input>''" ?ast ?cfg1 ?trace
      "str ''no-var''"]
  from inst1 [THEN conjunct2, THEN conjunct2, THEN conjunct1, rule_format, OF ok1]
  have reached1: "rules_reached ?mapper (str ''<input>'') ?cfg1 = ?cfg1" .
  from inst1 [THEN conjunct1]
  have first: "createCalls (snd (runRules ?m ?mapper Map.empty (str ''<input>'') ?ast ?cfg1 ?trace)) =
      [str ''no-var'']"
    unfolding reached1 ids1 by simp
  note inst2 = create_called_once [of ?m ?mapper Map.empty "str ''<input>''" ?ast ?cfg2 ?trace
      "str ''semi''"]
  have bad: "?cfg2 = [] @ (str ''semi'', ?warn) # [(str ''no-var'', ?err)] \<and>
      list_all (\<lambda>kv. \<not> create_fails ?mapper (str ''<input>'') kv) [] \<and>
      create_fails ?mapper (str ''<input>'') (str ''semi'', ?warn)"
    by (simp add: create_fails_def)
  from inst2 [THEN conjunct2, THEN conjunct2, THEN conjunct2, THEN conjunct1, rule_format,
      OF bad]
  have reached2: "rules_reached ?mapper (str ''<input>'') ?cfg2 = [] @ [(str ''semi'', ?warn)]"
    by (rule conjunct1)
  have ids2: "enabled_rule_ids ?mapper ([] @ [(str ''semi'', ?warn)]) = [str ''semi'']"
    by (simp add: enabled_rule_ids_def)
  from inst2 [THEN conjunct1]
  have second:
    "createCalls (snd (runRules ?m ?mapper Map.empty (str ''<input>'') ?ast ?cfg2 ?trace)) =
      [str ''semi'']"
    unfolding reached2 ids2 by simp
  have nullish: "?cfg2 = [] @ (str ''semi'', ?warn) # [(str ''no-var'', ?err)] \<and>
      list_all (\<lambda>kv. \<not> create_fails ?mapper (str ''<input>'') kv) [] \<and>
      entry_severity ?warn \<noteq> 0 \<and> ?mapper (str ''semi'') = Some ?bad \<and>
      (create ?bad \<lparr>ctx_id = str ''semi'', ctx_options = entry_options ?warn,
          ctx_filename = str ''<input>''\<rparr> = Inr JsUndefined \<or>
       create ?bad \<lparr>ctx_id = str ''semi'', ctx_options = entry_options ?warn,
          ctx_filename = str ''<input>''\<rparr> = Inr JsNull)"
    by simp
  from inst2 [THEN conjunct2, THEN conjunct2, THEN conjunct2, THEN conjunct2, rule_format,
      OF nullish]
  have third: "fst (runRules ?m ?mapper Map.empty (str ''<input>'') ?ast ?cfg2 ?trace) =
     Inl (new_Error (str ''The create() function for rule '' @ [39] @ str ''semi'' @ [39] @
            str '' did not return an object.''))" .
  from first second third show ?thesis by (intro conjI)
qed

subsection \<open>The fix loop\<close>

lemma applyFixes_not_fixed:
  assumes "\<not> fixed (applyFixes t ms shouldFix)"
  shows "output_text (applyFixes t ms shouldFix) = t \<and> messages (applyFixes t ms shouldFix) = ms"
proof -
  from assms have acc: "accept_fixes None (stable_sort fix_before
      (concat (map (\<lambda>(i, m). case fix_prop m of
                            Some f \<Rightarrow> if wanted shouldFix m then [(i, f)] else []
                          | None \<Rightarrow> []) (zip [0..<length ms] ms)))) = []"
    by (simp add: applyFixes_def Let_def)
  have "map snd (zip [0..<length ms] ms) = ms" by simp
  with acc show ?thesis by (simp add: applyFixes_def Let_def)
qed

lemma applyFixes_no_fix:
  "fix_prop m = None \<Longrightarrow>
     applyFixes t [m] shouldFix = \<lparr>fixed = False, messages = [m], output_text = t\<rparr>"
  by (simp add: applyFixes_def stable_sort_def)

lemma verifyAndFix_loop_exit:
  "verifyAndFix_loop verify_fn shouldFix s fixed0 passNumber0 t = (Inr L, s') \<Longrightarrow>
     passNumber0 < ls_passNumber L \<and>
     (passNumber0 < MAX_AUTOFIX_PASSES \<longrightarrow> ls_passNumber L \<le> MAX_AUTOFIX_PASSES) \<and>
     (fixed0 \<longrightarrow> ls_fixed L) \<and>
     (\<not> ls_fixed L \<longrightarrow> ls_currentText L = t) \<and>
     (ls_passNumber L < MAX_AUTOFIX_PASSES \<longrightarrow>
        \<not> fixed (ls_fixedResult L) \<or> (\<exists>m. ls_messages L = [m] \<and> fatal m = Some True)) \<and>
     (\<forall>m. ls_messages L = [m] \<and> fatal m = Some True \<longrightarrow>
        ls_fixedResult L = applyFixes (ls_currentText L) [m] shouldFix)"
proof (induction verify_fn shouldFix s fixed0 passNumber0 t rule: verifyAndFix_loop.induct)
  case (1 verify_fn shouldFix s fixed0 passNumber0 t)
  obtain r s1 where v: "verify_fn s t = (r, s1)" by (cases "verify_fn s t")
  show ?case
  proof (cases r)
    case (Inl ex)
    with v 1(2) show ?thesis
      by (simp add: verifyAndFix_loop.simps [of verify_fn shouldFix s fixed0 passNumber0 t])
  next
    case (Inr msgs)
    let ?fr = "applyFixes t msgs shouldFix"
    show ?thesis
    proof (cases "length msgs = 1 \<and> fatal (msgs ! 0) = Some True")
      case True
      then obtain m where "msgs = [m]" "fatal m = Some True"
        by (cases msgs) auto
      with v Inr 1(2) show ?thesis
        by (auto simp: verifyAndFix_loop.simps [of verify_fn shouldFix s fixed0 passNumber0 t])
    next
      case nf: False
      show ?thesis
      proof (cases "fixed ?fr \<and> passNumber0 + 1 < MAX_AUTOFIX_PASSES")
        case True
        with v Inr nf 1(2) have rec: "verifyAndFix_loop verify_fn shouldFix s1
            (fixed0 \<or> fixed ?fr) (passNumber0 + 1) (output_text ?fr) = (Inr L, s')"
          by (auto simp: verifyAndFix_loop.simps [of verify_fn shouldFix s fixed0 passNumber0 t]
              Let_def split: if_splits)
        have ih: "passNumber0 + 1 < ls_passNumber L \<and>
          (passNumber0 + 1 < MAX_AUTOFIX_PASSES \<longrightarrow> ls_passNumber L \<le> MAX_AUTOFIX_PASSES) \<and>
          (fixed0 \<or> fixed ?fr \<longrightarrow> ls_fixed L) \<and>
          (\<not> ls_fixed L \<longrightarrow> ls_currentText L = output_text ?fr) \<and>
          (ls_passNumber L < MAX_AUTOFIX_PASSES \<longrightarrow>
             \<not> fixed (ls_fixedResult L) \<or> (\<exists>m. ls_messages L = [m] \<and> fatal m = Some True)) \<and>
          (\<forall>m. ls_messages L = [m] \<and> fatal m = Some True \<longrightarrow>
             ls_fixedResult L = applyFixes (ls_currentText L) [m] shouldFix)"
          using 1(1) [OF refl v [symmetric] _ refl] Inr nf True rec by simp
        with True show ?thesis by auto
      next
        case False
        with v Inr nf 1(2) have L: "L = \<lparr>ls_messages = msgs, ls_fixedResult = ?fr,
            ls_fixed = (fixed0 \<or> fixed ?fr), ls_passNumber = passNumber0 + 1,
            ls_currentText = output_text ?fr\<rparr>"
          by (auto simp: verifyAndFix_loop.simps [of verify_fn shouldFix s fixed0 passNumber0 t]
              Let_def split: if_splits)
        show ?thesis
          using False nf applyFixes_not_fixed [of t msgs shouldFix] unfolding L by auto
      qed
    qed
  qed
qed

text \<open>One round of the loop, by what \<open>verify\<close> returns and what \<open>applyFixes\<close> does.\<close>

lemma verifyAndFix_loop_throws:
  assumes "verify_fn s t = (Inl ex, s1)"
  shows "verifyAndFix_loop verify_fn shouldFix s fixed0 p0 t = (Inl ex, s1)"
  using assms by (simp add: verifyAndFix_loop.simps [of verify_fn shouldFix s fixed0 p0 t])

lemma verifyAndFix_loop_fatal:
  assumes "verify_fn s t = (Inr msgs, s1)" and "single_fatal msgs"
  shows "verifyAndFix_loop verify_fn shouldFix s fixed0 p0 t =
     (Inr \<lparr>ls_messages = msgs, ls_fixedResult = applyFixes t msgs shouldFix, ls_fixed = fixed0,
           ls_passNumber = p0 + 1, ls_currentText = t\<rparr>, s1)"
  using assms
  by (simp add: verifyAndFix_loop.simps [of verify_fn shouldFix s fixed0 p0 t] single_fatal_def)

lemma verifyAndFix_loop_stop:
  assumes "verify_fn s t = (Inr msgs, s1)" and "\<not> single_fatal msgs"
    and "\<not> (fixed (applyFixes t msgs shouldFix) \<and> p0 + 1 < MAX_AUTOFIX_PASSES)"
  shows "verifyAndFix_loop verify_fn shouldFix s fixed0 p0 t =
     (Inr \<lparr>ls_messages = msgs, ls_fixedResult = applyFixes t msgs shouldFix,
           ls_fixed = (fixed0 \<or> fixed (applyFixes t msgs shouldFix)),
           ls_passNumber = p0 + 1,
           ls_currentText = output_text (applyFixes t msgs shouldFix)\<rparr>, s1)"
  using assms
  by (auto simp: verifyAndFix_loop.simps [of verify_fn shouldFix s fixed0 p0 t] single_fatal_def
      Let_def)

lemma verifyAndFix_loop_again:
  assumes "verify_fn s t = (Inr msgs, s1)" and "\<not> single_fatal msgs"
    and "fixed (applyFixes t msgs shouldFix)" and "p0 + 1 < MAX_AUTOFIX_PASSES"
  shows "verifyAndFix_loop verify_fn shouldFix s fixed0 p0 t =
     verifyAndFix_loop verify_fn shouldFix s1 True (p0 + 1)
       (output_text (applyFixes t msgs shouldFix))"
  using assms
  by (auto simp: verifyAndFix_loop.simps [of verify_fn shouldFix s fixed0 p0 t] single_fatal_def
      Let_def)

lemma logging_call:
  "verify_fn s t = (r, s1) \<Longrightarrow> logging verify_fn (s, l) t = (r, s1, l @ [(t, r)])"
  by (simp add: logging_def)

text \<open>The log changes neither what the loop returns nor the state of the linter.\<close>

lemma verifyAndFix_loop_logging:
  "verifyAndFix_loop (logging verify_fn) shouldFix (s, l) fixed0 p0 t = (res, s', l') \<Longrightarrow>
     verifyAndFix_loop verify_fn shouldFix s fixed0 p0 t = (res, s')"
proof (induction "MAX_AUTOFIX_PASSES - p0" arbitrary: s l fixed0 p0 t rule: less_induct)
  case less
  obtain r s1 where v: "verify_fn s t = (r, s1)" by (cases "verify_fn s t")
  note c = logging_call [of verify_fn s t r s1 l, OF v]
  show ?case
  proof (cases r)
    case (Inl ex)
    from verifyAndFix_loop_throws [of "logging verify_fn" "(s, l)" t ex "(s1, l @ [(t, r)])"
        shouldFix fixed0 p0]
      verifyAndFix_loop_throws [of verify_fn s t ex s1 shouldFix fixed0 p0]
      c v Inl less.prems
    show ?thesis by simp
  next
    case (Inr msgs)
    let ?fr = "applyFixes t msgs shouldFix"
    show ?thesis
    proof (cases "single_fatal msgs")
      case True
      from verifyAndFix_loop_fatal [of "logging verify_fn" "(s, l)" t msgs "(s1, l @ [(t, r)])"
          shouldFix fixed0 p0]
        verifyAndFix_loop_fatal [of verify_fn s t msgs s1 shouldFix fixed0 p0]
        c v Inr True less.prems
      show ?thesis by simp
    next
      case nf: False
      show ?thesis
      proof (cases "fixed ?fr \<and> p0 + 1 < MAX_AUTOFIX_PASSES")
        case False
        from verifyAndFix_loop_stop [of "logging verify_fn" "(s, l)" t msgs "(s1, l @ [(t, r)])"
            shouldFix p0 fixed0]
          verifyAndFix_loop_stop [of verify_fn s t msgs s1 shouldFix p0 fixed0]
          c v Inr nf False less.prems
        show ?thesis by simp
      next
        case True
        then have lt: "MAX_AUTOFIX_PASSES - (p0 + 1) < MAX_AUTOFIX_PASSES - p0" by linarith
        from verifyAndFix_loop_again [of "logging verify_fn" "(s, l)" t msgs "(s1, l @ [(t, r)])"
            shouldFix p0 fixed0] c Inr nf True less.prems
        have "verifyAndFix_loop (logging verify_fn) shouldFix (s1, l @ [(t, r)]) True (p0 + 1)
            (output_text ?fr) = (res, s', l')"
          by simp
        from less.hyps [OF lt this]
          verifyAndFix_loop_again [of verify_fn s t msgs s1 shouldFix p0 fixed0] v Inr nf True
        show ?thesis by simp
      qed
    qed
  qed
qed

text \<open>
  The calls the loop makes: each but the last is a round that applied a fix without a
  single fatal problem, and the next call has the text it produced.
\<close>

lemma verifyAndFix_loop_log:
  assumes "verifyAndFix_loop (logging verify_fn) shouldFix (s, l) fixed0 p0 t = (res, s', l')"
    and "p0 < MAX_AUTOFIX_PASSES"
  shows "\<exists>calls. l' = l @ calls \<and> calls \<noteq> [] \<and> fst (hd calls) = t \<and>
     p0 + length calls \<le> MAX_AUTOFIX_PASSES \<and>
     (\<forall>i. Suc i < length calls \<longrightarrow>
        (\<exists>m. snd (calls ! i) = Inr m \<and> \<not> single_fatal m \<and>
             fixed (applyFixes (fst (calls ! i)) m shouldFix) \<and>
             fst (calls ! Suc i) = output_text (applyFixes (fst (calls ! i)) m shouldFix))) \<and>
     (\<forall>ex. res = Inl ex \<longrightarrow> snd (last calls) = Inl ex) \<and>
     (\<forall>L. res = Inr L \<longrightarrow>
        (\<exists>m. snd (last calls) = Inr m \<and>
             ls_fixedResult L = applyFixes (fst (last calls)) m shouldFix \<and>
             ls_fixed L = (fixed0 \<or> 1 < length calls \<or>
                (\<not> single_fatal m \<and> fixed (applyFixes (fst (last calls)) m shouldFix))) \<and>
             ls_currentText L =
               (if single_fatal m then fst (last calls)
                else output_text (applyFixes (fst (last calls)) m shouldFix)) \<and>
             (\<not> single_fatal m \<and> fixed (applyFixes (fst (last calls)) m shouldFix) \<longrightarrow>
                p0 + length calls = MAX_AUTOFIX_PASSES)))"
  using assms
proof (induction "MAX_AUTOFIX_PASSES - p0" arbitrary: s l fixed0 p0 t rule: less_induct)
  case less
  note run = less.prems(1) and bound = less.prems(2)
  obtain r s1 where v: "verify_fn s t = (r, s1)" by (cases "verify_fn s t")
  note c = logging_call [of verify_fn s t r s1 l, OF v]
  show ?case
  proof (cases r)
    case (Inl ex)
    from verifyAndFix_loop_throws [of "logging verify_fn" "(s, l)" t ex "(s1, l @ [(t, r)])"
        shouldFix fixed0 p0] c Inl run
    have "res = Inl ex" "l' = l @ [(t, Inl ex)]" by simp_all
    with bound show ?thesis by (intro exI [of _ "[(t, Inl ex)]"]) simp
  next
    case (Inr msgs)
    let ?fr = "applyFixes t msgs shouldFix"
    show ?thesis
    proof (cases "single_fatal msgs")
      case True
      from verifyAndFix_loop_fatal [of "logging verify_fn" "(s, l)" t msgs "(s1, l @ [(t, r)])"
          shouldFix fixed0 p0] c Inr True run
      have "res = Inr \<lparr>ls_messages = msgs, ls_fixedResult = ?fr, ls_fixed = fixed0,
           ls_passNumber = p0 + 1, ls_currentText = t\<rparr>" "l' = l @ [(t, Inr msgs)]"
        by simp_all
      with bound True show ?thesis by (intro exI [of _ "[(t, Inr msgs)]"]) simp
    next
      case nf: False
      show ?thesis
      proof (cases "fixed ?fr \<and> p0 + 1 < MAX_AUTOFIX_PASSES")
        case False
        from verifyAndFix_loop_stop [of "logging verify_fn" "(s, l)" t msgs "(s1, l @ [(t, r)])"
            shouldFix p0 fixed0] c Inr nf False run
        have "res = Inr \<lparr>ls_messages = msgs, ls_fixedResult = ?fr,
           ls_fixed = (fixed0 \<or> fixed ?fr), ls_passNumber = p0 + 1,
           ls_currentText = output_text ?fr\<rparr>" "l' = l @ [(t, Inr msgs)]"
          by simp_all
        moreover from False bound have "fixed ?fr \<longrightarrow> p0 + 1 = MAX_AUTOFIX_PASSES" by auto
        ultimately show ?thesis
          using bound nf by (intro exI [of _ "[(t, Inr msgs)]"]) auto
      next
        case True
        then have bound': "p0 + 1 < MAX_AUTOFIX_PASSES" and fx: "fixed ?fr"
          by simp_all
        from bound' have lt: "MAX_AUTOFIX_PASSES - (p0 + 1) < MAX_AUTOFIX_PASSES - p0"
          by linarith
        from verifyAndFix_loop_again [of "logging verify_fn" "(s, l)" t msgs "(s1, l @ [(t, r)])"
            shouldFix p0 fixed0] c Inr nf True run
        have rest: "verifyAndFix_loop (logging verify_fn) shouldFix (s1, l @ [(t, Inr msgs)]) True
            (p0 + 1) (output_text ?fr) = (res, s', l')"
          by simp
        from less.hyps [OF lt rest bound'] obtain calls where
          log: "l' = (l @ [(t, Inr msgs)]) @ calls" and ne: "calls \<noteq> []"
          and first: "fst (hd calls) = output_text ?fr"
          and len: "p0 + 1 + length calls \<le> MAX_AUTOFIX_PASSES"
          and chain: "\<forall>i. Suc i < length calls \<longrightarrow>
            (\<exists>m. snd (calls ! i) = Inr m \<and> \<not> single_fatal m \<and>
                 fixed (applyFixes (fst (calls ! i)) m shouldFix) \<and>
                 fst (calls ! Suc i) = output_text (applyFixes (fst (calls ! i)) m shouldFix))"
          and thrown: "\<forall>ex. res = Inl ex \<longrightarrow> snd (last calls) = Inl ex"
          and returned: "\<forall>L. res = Inr L \<longrightarrow>
            (\<exists>m. snd (last calls) = Inr m \<and>
               ls_fixedResult L = applyFixes (fst (last calls)) m shouldFix \<and>
               ls_fixed L = (True \<or> 1 < length calls \<or>
                  (\<not> single_fatal m \<and> fixed (applyFixes (fst (last calls)) m shouldFix))) \<and>
               ls_currentText L =
                 (if single_fatal m then fst (last calls)
                  else output_text (applyFixes (fst (last calls)) m shouldFix)) \<and>
               (\<not> single_fatal m \<and> fixed (applyFixes (fst (last calls)) m shouldFix) \<longrightarrow>
                  p0 + 1 + length calls = MAX_AUTOFIX_PASSES))"
          by blast
        let ?calls = "(t, Inr msgs) # calls"
        have a: "l' = l @ ?calls" using log by simp
        have b: "?calls \<noteq> [] \<and> fst (hd ?calls) = t" by simp
        have d: "p0 + length ?calls \<le> MAX_AUTOFIX_PASSES" using len by simp
        have e: "\<exists>m. snd (?calls ! i) = Inr m \<and> \<not> single_fatal m \<and>
             fixed (applyFixes (fst (?calls ! i)) m shouldFix) \<and>
             fst (?calls ! Suc i) = output_text (applyFixes (fst (?calls ! i)) m shouldFix)"
          if "Suc i < length ?calls" for i
        proof (cases i)
          case 0
          from ne first have "fst (calls ! 0) = output_text ?fr" by (simp add: hd_conv_nth)
          with 0 nf fx show ?thesis by simp
        next
          case (Suc j)
          with that have "Suc j < length calls" by simp
          with chain Suc show ?thesis by simp
        qed
        have lst: "last ?calls = last calls" using ne by simp
        have long: "1 < length ?calls" using ne by (cases calls) simp_all
        have f: "\<forall>ex. res = Inl ex \<longrightarrow> snd (last ?calls) = Inl ex"
          using thrown lst by simp
        have g: "\<exists>m. snd (last ?calls) = Inr m \<and>
               ls_fixedResult L = applyFixes (fst (last ?calls)) m shouldFix \<and>
               ls_fixed L = (fixed0 \<or> 1 < length ?calls \<or>
                  (\<not> single_fatal m \<and> fixed (applyFixes (fst (last ?calls)) m shouldFix))) \<and>
               ls_currentText L =
                 (if single_fatal m then fst (last ?calls)
                  else output_text (applyFixes (fst (last ?calls)) m shouldFix)) \<and>
               (\<not> single_fatal m \<and> fixed (applyFixes (fst (last ?calls)) m shouldFix) \<longrightarrow>
                  p0 + length ?calls = MAX_AUTOFIX_PASSES)"
          if "res = Inr L" for L
        proof -
          from returned that obtain m where
            m: "snd (last calls) = Inr m"
              "ls_fixedResult L = applyFixes (fst (last calls)) m shouldFix"
              "ls_fixed L"
              "ls_currentText L =
                 (if single_fatal m then fst (last calls)
                  else output_text (applyFixes (fst (last calls)) m shouldFix))"
              "\<not> single_fatal m \<and> fixed (applyFixes (fst (last calls)) m shouldFix) \<longrightarrow>
                  p0 + 1 + length calls = MAX_AUTOFIX_PASSES"
            by auto
          show ?thesis
            unfolding lst using m long by (intro exI [of _ m]) simp
        qed
        from a b d e f g show ?thesis by (intro exI [of _ ?calls]) blast
      qed
    qed
  qed
qed

lemma FixResult_update_eq:
  "fr\<lparr>fixed := b, output_text := t\<rparr> = \<lparr>fixed = b, messages = messages fr, output_text = t\<rparr>"
  "fr\<lparr>messages := ms, fixed := b, output_text := t\<rparr> =
     \<lparr>fixed = b, messages = ms, output_text = t\<rparr>"
  by (cases fr; simp)+

text \<open>
  C2.  The calls of \<open>verify\<close> that \<open>verifyAndFix\<close> makes, in order, with the text each
  was given and what it returned.  The first call lints the input, and there are at
  most eleven calls: ten rounds and one more \<open>verify\<close>.  Every call that is followed by
  another is a round in which \<open>applyFixes\<close> applied a fix, and the next call lints the
  text that round produced; so a round that applies no fix is the last call.  A round
  with a single fatal problem and no fix applied is the last call too; had a fix been
  applied there, one more \<open>verify\<close> of the same text would follow and end the calls.
  When the last call returns, \<open>verifyAndFix\<close> returns its problems and the text it was
  given, and that call is either a round that applied no fix, or the \<open>verify\<close> that
  follows the tenth round (or a fatal round with a fix); when it throws, \<open>verifyAndFix\<close>
  throws.  So a single fatal problem without a fix, as \<open>parse\<close> makes it, is returned
  with the text it was found in.  The log changes nothing: without it \<open>verifyAndFix\<close>
  returns the same.
\<close>

theorem verifyAndFix_driver:
  assumes "verifyAndFix (logging verify_fn) shouldFix (s, []) input = (outcome, s', log)"
  shows "verifyAndFix verify_fn shouldFix s input = (outcome, s') \<and>
    (log \<noteq> [] \<and> fst (hd log) = input \<and> length log \<le> MAX_AUTOFIX_PASSES + 1) \<and>
    (\<forall>i. Suc i < length log \<longrightarrow>
       (\<exists>m. snd (log ! i) = Inr m \<and> fixed (applyFixes (fst (log ! i)) m shouldFix) \<and>
          (if single_fatal m
           then Suc (Suc i) = length log \<and> fst (log ! Suc i) = fst (log ! i)
           else fst (log ! Suc i) = output_text (applyFixes (fst (log ! i)) m shouldFix)))) \<and>
    (\<forall>ex. snd (last log) = Inl ex \<longrightarrow> outcome = Inl ex) \<and>
    (\<forall>m. snd (last log) = Inr m \<longrightarrow>
       outcome = Inr \<lparr>fixed = (\<exists>i. Suc i < length log \<and>
                                 (\<exists>m'. snd (log ! i) = Inr m' \<and> \<not> single_fatal m')),
                      messages = m, output_text = fst (last log)\<rparr> \<and>
       (length log = MAX_AUTOFIX_PASSES + 1 \<or>
        (\<exists>m'. 2 \<le> length log \<and> snd (log ! (length log - 2)) = Inr m' \<and> single_fatal m') \<or>
        \<not> fixed (applyFixes (fst (last log)) m shouldFix))) \<and>
    (\<forall>i m. i < length log \<and> snd (log ! i) = Inr [m] \<and> fatal m = Some True \<and>
           fix_prop m = None \<longrightarrow>
       Suc i = length log \<and>
       (\<exists>r. outcome = Inr r \<and> messages r = [m] \<and> output_text r = fst (log ! i)))"
proof -
  let ?A = "verifyAndFix verify_fn shouldFix s input = (outcome, s')"
  let ?B = "log \<noteq> [] \<and> fst (hd log) = input \<and> length log \<le> MAX_AUTOFIX_PASSES + 1"
  let ?C = "\<forall>i. Suc i < length log \<longrightarrow>
       (\<exists>m. snd (log ! i) = Inr m \<and> fixed (applyFixes (fst (log ! i)) m shouldFix) \<and>
          (if single_fatal m
           then Suc (Suc i) = length log \<and> fst (log ! Suc i) = fst (log ! i)
           else fst (log ! Suc i) = output_text (applyFixes (fst (log ! i)) m shouldFix)))"
  let ?D = "\<forall>ex. snd (last log) = Inl ex \<longrightarrow> outcome = Inl ex"
  let ?flag = "\<exists>i. Suc i < length log \<and> (\<exists>m'. snd (log ! i) = Inr m' \<and> \<not> single_fatal m')"
  let ?E = "\<forall>m. snd (last log) = Inr m \<longrightarrow>
       outcome = Inr \<lparr>fixed = ?flag, messages = m, output_text = fst (last log)\<rparr> \<and>
       (length log = MAX_AUTOFIX_PASSES + 1 \<or>
        (\<exists>m'. 2 \<le> length log \<and> snd (log ! (length log - 2)) = Inr m' \<and> single_fatal m') \<or>
        \<not> fixed (applyFixes (fst (last log)) m shouldFix))"
  obtain res s1 l1 where
    loop: "verifyAndFix_loop (logging verify_fn) shouldFix (s, []) False 0 input = (res, s1, l1)"
    by (cases "verifyAndFix_loop (logging verify_fn) shouldFix (s, []) False 0 input") auto
  from verifyAndFix_loop_logging [OF loop]
  have plain: "verifyAndFix_loop verify_fn shouldFix s False 0 input = (res, s1)" .
  have "0 < MAX_AUTOFIX_PASSES" by (simp add: MAX_AUTOFIX_PASSES_def)
  from verifyAndFix_loop_log [OF loop this] obtain calls where
    l1: "l1 = calls" and ne: "calls \<noteq> []" and first: "fst (hd calls) = input"
    and len: "length calls \<le> MAX_AUTOFIX_PASSES"
    and chain: "\<forall>i. Suc i < length calls \<longrightarrow>
      (\<exists>m. snd (calls ! i) = Inr m \<and> \<not> single_fatal m \<and>
           fixed (applyFixes (fst (calls ! i)) m shouldFix) \<and>
           fst (calls ! Suc i) = output_text (applyFixes (fst (calls ! i)) m shouldFix))"
    and thrown: "\<forall>ex. res = Inl ex \<longrightarrow> snd (last calls) = Inl ex"
    and returned: "\<forall>L. res = Inr L \<longrightarrow>
      (\<exists>m. snd (last calls) = Inr m \<and>
         ls_fixedResult L = applyFixes (fst (last calls)) m shouldFix \<and>
         ls_fixed L = (False \<or> 1 < length calls \<or>
            (\<not> single_fatal m \<and> fixed (applyFixes (fst (last calls)) m shouldFix))) \<and>
         ls_currentText L =
           (if single_fatal m then fst (last calls)
            else output_text (applyFixes (fst (last calls)) m shouldFix)) \<and>
         (\<not> single_fatal m \<and> fixed (applyFixes (fst (last calls)) m shouldFix) \<longrightarrow>
            0 + length calls = MAX_AUTOFIX_PASSES))"
    by auto
  have rounds: "\<exists>m. snd (calls ! i) = Inr m \<and> fixed (applyFixes (fst (calls ! i)) m shouldFix) \<and>
          (if single_fatal m
           then Suc (Suc i) = n \<and> fst (calls ! Suc i) = fst (calls ! i)
           else fst (calls ! Suc i) = output_text (applyFixes (fst (calls ! i)) m shouldFix))"
    if "Suc i < length calls" for i n
  proof -
    from chain that obtain m where "snd (calls ! i) = Inr m" "\<not> single_fatal m"
      "fixed (applyFixes (fst (calls ! i)) m shouldFix)"
      "fst (calls ! Suc i) = output_text (applyFixes (fst (calls ! i)) m shouldFix)"
      by blast
    then show ?thesis by (intro exI [of _ m]) simp
  qed
  have flag_long: "\<exists>m'. snd (calls ! 0) = Inr m' \<and> \<not> single_fatal m'" if "1 < length calls"
    using chain that by (metis One_nat_def)
  have "?A \<and> ?B \<and> ?C \<and> ?D \<and> ?E"
  proof (cases res)
    case (Inl ex)
    from assms loop Inl l1 have out: "outcome = Inl ex" "s' = s1" "log = calls"
      by (simp_all add: verifyAndFix_def)
    from plain Inl out have a: ?A by (simp add: verifyAndFix_def)
    from ne first len out have b: ?B by simp
    from rounds out have c: ?C by blast
    from thrown Inl have lastc: "snd (last calls) = Inl ex" by simp
    with out have d: ?D by simp
    from lastc out have e: ?E by simp
    from a b c d e show ?thesis by blast
  next
    case (Inr L)
    with returned obtain m where
      lastc: "snd (last calls) = Inr m"
      and fr: "ls_fixedResult L = applyFixes (fst (last calls)) m shouldFix"
      and fl: "ls_fixed L = (1 < length calls \<or>
            (\<not> single_fatal m \<and> fixed (applyFixes (fst (last calls)) m shouldFix)))"
      and cur: "ls_currentText L =
           (if single_fatal m then fst (last calls)
            else output_text (applyFixes (fst (last calls)) m shouldFix))"
      and cap: "\<not> single_fatal m \<and> fixed (applyFixes (fst (last calls)) m shouldFix) \<longrightarrow>
            length calls = MAX_AUTOFIX_PASSES"
      by auto
    let ?fr = "applyFixes (fst (last calls)) m shouldFix"
    show ?thesis
    proof (cases "fixed (ls_fixedResult L)")
      case False
      with fr have nofix: "\<not> fixed ?fr" by simp
      from applyFixes_not_fixed [OF nofix]
      have same: "output_text ?fr = fst (last calls)" "messages ?fr = m" by simp_all
      from assms loop Inr False l1
      have out: "outcome = Inr ((ls_fixedResult L)\<lparr>fixed := ls_fixed L,
                                   output_text := ls_currentText L\<rparr>)" "s' = s1" "log = calls"
        by (simp_all add: verifyAndFix_def verifyAndFix_finish_def)
      from out(1) fr fl cur nofix same
      have outcome: "outcome = Inr \<lparr>fixed = 1 < length calls, messages = m,
          output_text = fst (last calls)\<rparr>"
        by (simp add: FixResult_update_eq)
      from plain Inr False out have a: ?A
        by (simp add: verifyAndFix_def verifyAndFix_finish_def)
      from ne first len out have b: ?B by simp
      from rounds out have c: ?C by blast
      from lastc out have d: ?D by simp
      have "(1 < length calls) =
          (\<exists>i. Suc i < length calls \<and> (\<exists>m'. snd (calls ! i) = Inr m' \<and> \<not> single_fatal m'))"
        using flag_long by auto
      with outcome lastc nofix out(3) have e: ?E by simp
      from a b c d e show ?thesis by blast
    next
      case True
      with fr have fx: "fixed ?fr" by simp
      let ?cur = "ls_currentText L"
      obtain r2 s2 where v2: "verify_fn s1 ?cur = (r2, s2)" by (cases "verify_fn s1 ?cur")
      from logging_call [of verify_fn s1 ?cur r2 s2 calls, OF v2]
      have lv2: "logging verify_fn (s1, calls) ?cur = (r2, s2, calls @ [(?cur, r2)])" .
      from assms loop Inr True l1 lv2
      have out: "outcome = (case r2 of Inl ex \<Rightarrow> Inl ex
            | Inr msgs \<Rightarrow> Inr ((ls_fixedResult L)\<lparr>messages := msgs, fixed := ls_fixed L,
                                                   output_text := ?cur\<rparr>))"
        "s' = s2" "log = calls @ [(?cur, r2)]"
        by (simp_all add: verifyAndFix_def verifyAndFix_finish_def split: sum.splits)
      from plain Inr True v2 out have a: ?A
        by (simp add: verifyAndFix_def verifyAndFix_finish_def split: sum.splits)
      from ne first len out have b: ?B by simp
      have lastn: "calls ! (length calls - 1) = last calls"
        using ne by (simp add: last_conv_nth)
      have c: ?C
      proof (intro allI impI)
        fix i
        assume "Suc i < length log"
        with out have i: "Suc i < length calls + 1" by simp
        show "\<exists>m. snd (log ! i) = Inr m \<and> fixed (applyFixes (fst (log ! i)) m shouldFix) \<and>
          (if single_fatal m
           then Suc (Suc i) = length log \<and> fst (log ! Suc i) = fst (log ! i)
           else fst (log ! Suc i) = output_text (applyFixes (fst (log ! i)) m shouldFix))"
        proof (cases "Suc i < length calls")
          case True
          with chain obtain m' where "snd (calls ! i) = Inr m'" "\<not> single_fatal m'"
            "fixed (applyFixes (fst (calls ! i)) m' shouldFix)"
            "fst (calls ! Suc i) = output_text (applyFixes (fst (calls ! i)) m' shouldFix)"
            by blast
          with True out(3) show ?thesis
            by (intro exI [of _ m']) (simp add: nth_append)
        next
          case False
          with i have i_eq: "i = length calls - 1" "Suc i = length calls" by simp_all
          with lastn out(3) ne have "log ! i = last calls" "log ! Suc i = (?cur, r2)"
            "Suc (Suc i) = length log"
            by (simp_all add: nth_append)
          with lastc fx cur show ?thesis by (intro exI [of _ m]) simp
        qed
      qed
      from out have lastl: "last log = (?cur, r2)" by simp
      from lastl out(1) have d: ?D by simp
      have flag: "ls_fixed L =
          (\<exists>i. Suc i < length log \<and> (\<exists>m'. snd (log ! i) = Inr m' \<and> \<not> single_fatal m'))"
      proof
        assume "ls_fixed L"
        with fl fx consider "1 < length calls" | "\<not> single_fatal m" by blast
        then show "\<exists>i. Suc i < length log \<and>
            (\<exists>m'. snd (log ! i) = Inr m' \<and> \<not> single_fatal m')"
        proof cases
          case 1
          with flag_long obtain m' where "snd (calls ! 0) = Inr m'" "\<not> single_fatal m'"
            by blast
          with 1 out(3) ne show ?thesis by (intro exI [of _ 0]) (simp add: nth_append)
        next
          case 2
          with lastc lastn out(3) ne show ?thesis
            by (intro exI [of _ "length calls - 1"]) (simp add: nth_append)
        qed
      next
        assume "\<exists>i. Suc i < length log \<and> (\<exists>m'. snd (log ! i) = Inr m' \<and> \<not> single_fatal m')"
        then obtain i m' where i: "Suc i < length log" "snd (log ! i) = Inr m'"
          "\<not> single_fatal m'"
          by blast
        show "ls_fixed L"
        proof (cases "Suc i < length calls")
          case True
          with fl show ?thesis by simp
        next
          case False
          with i(1) out(3) have "i = length calls - 1" by simp
          with lastn out(3) ne have "log ! i = last calls" by (simp add: nth_append)
          with i lastc have "\<not> single_fatal m" by simp
          with fl fx show ?thesis by simp
        qed
      qed
      have which: "length log = MAX_AUTOFIX_PASSES + 1 \<or>
          (\<exists>m'. 2 \<le> length log \<and> snd (log ! (length log - 2)) = Inr m' \<and> single_fatal m')"
      proof (cases "single_fatal m")
        case True
        from ne have pos: "length calls - 1 < length calls" "1 \<le> length calls"
          by (cases calls, simp_all)+
        from out(3) have idx: "length log - 2 = length calls - 1" by simp
        from pos(1) out(3) lastn have "log ! (length calls - 1) = last calls"
          by (simp add: nth_append)
        with idx have at: "snd (log ! (length log - 2)) = Inr m" using lastc by simp
        from pos(2) out(3) have "2 \<le> length log" by simp
        with at True show ?thesis by blast
      next
        case False
        with cap fx out(3) show ?thesis by simp
      qed
      have e: ?E
      proof (intro allI impI)
        fix msgs
        assume "snd (last log) = Inr msgs"
        with lastl have r2: "r2 = Inr msgs" by simp
        with out(1) flag lastl
        have "outcome = Inr \<lparr>fixed = ?flag, messages = msgs, output_text = fst (last log)\<rparr>"
          by (simp add: FixResult_update_eq)
        with which
        show "outcome = Inr \<lparr>fixed = ?flag, messages = msgs, output_text = fst (last log)\<rparr> \<and>
          (length log = MAX_AUTOFIX_PASSES + 1 \<or>
           (\<exists>m'. 2 \<le> length log \<and> snd (log ! (length log - 2)) = Inr m' \<and> single_fatal m') \<or>
           \<not> fixed (applyFixes (fst (last log)) msgs shouldFix))"
          by blast
      qed
      from a b c d e show ?thesis by blast
    qed
  qed
  then have a: ?A and b: ?B and c: ?C and d: ?D and e: ?E by blast+
  have f: "Suc i = length log \<and>
       (\<exists>r. outcome = Inr r \<and> messages r = [m] \<and> output_text r = fst (log ! i))"
    if h: "i < length log \<and> snd (log ! i) = Inr [m] \<and> fatal m = Some True \<and>
           fix_prop m = None" for i m
  proof -
    from h have nofix: "\<not> fixed (applyFixes (fst (log ! i)) [m] shouldFix)"
      by (simp add: applyFixes_no_fix)
    have "\<not> Suc i < length log"
    proof
      assume "Suc i < length log"
      with c obtain m' where "snd (log ! i) = Inr m'"
        "fixed (applyFixes (fst (log ! i)) m' shouldFix)"
        by blast
      with h nofix show False by simp
    qed
    with h have i: "Suc i = length log" by simp
    then have "length log - 1 = i" by simp
    with b have "last log = log ! i" by (simp add: last_conv_nth)
    with h e i show ?thesis by simp
  qed
  from a b c d e f show ?thesis by blast
qed

theorem verifyAndFix_driver_witness:
  "verifyAndFix
     (logging (\<lambda>s t. if take 3 t = str ''var''
            then (Inr [\<lparr>ruleId = Some (str ''no-var''), fatal = None, severity = 2,
                     message = str ''Unexpected var.'',
                     line = Some 1, column = Some 1, endLine = None, endColumn = None,
                     nodeType = None,
                     fix_prop = Some \<lparr>fix_range = (0, 3), fix_text = str ''let''\<rparr>,
                     suggestions = None, suppressions = None\<rparr>], s)
            else (Inr [], s)))
     (FixAll True) ((), []) (str ''var y'') =
     (Inr \<lparr>fixed = True, messages = [], output_text = str ''let y''\<rparr>, (),
      [(str ''var y'',
        Inr [\<lparr>ruleId = Some (str ''no-var''), fatal = None, severity = 2,
               message = str ''Unexpected var.'',
               line = Some 1, column = Some 1, endLine = None, endColumn = None,
               nodeType = None,
               fix_prop = Some \<lparr>fix_range = (0, 3), fix_text = str ''let''\<rparr>,
               suggestions = None, suppressions = None\<rparr>]),
       (str ''let y'', Inr [])])
   \<and> verifyAndFix
     (\<lambda>s t. if take 3 t = str ''var''
            then (Inr [\<lparr>ruleId = Some (str ''no-var''), fatal = None, severity = 2,
                     message = str ''Unexpected var.'',
                     line = Some 1, column = Some 1, endLine = None, endColumn = None,
                     nodeType = None,
                     fix_prop = Some \<lparr>fix_range = (0, 3), fix_text = str ''let''\<rparr>,
                     suggestions = None, suppressions = None\<rparr>], s)
            else (Inr [], s))
     (FixAll True) () (str ''var y'') =
     (Inr \<lparr>fixed = True, messages = [], output_text = str ''let y''\<rparr>, ())"
proof -
  let ?m = "\<lparr>ruleId = Some (str ''no-var''), fatal = None, severity = 2,
                     message = str ''Unexpected var.'',
                     line = Some 1, column = Some 1, endLine = None, endColumn = None,
                     nodeType = None,
                     fix_prop = Some \<lparr>fix_range = (0, 3), fix_text = str ''let''\<rparr>,
                     suggestions = None, suppressions = None\<rparr>"
  let ?v = "\<lambda>(s :: unit) t. if take 3 t = str ''var''
            then (Inr [?m] :: lint_exception + LintMessage list, s)
            else (Inr [], s)"
  let ?r = "\<lparr>fixed = True, messages = [], output_text = str ''let y''\<rparr>"
  let ?log = "[(str ''var y'', Inr [?m]), (str ''let y'', Inr [])]"
  have run: "verifyAndFix (logging ?v) (FixAll True) ((), []) (str ''var y'') =
      (Inr ?r, (), ?log)"
    by (simp add: verifyAndFix_def verifyAndFix_finish_def verifyAndFix_loop.simps applyFixes_def
        stable_sort_def MAX_AUTOFIX_PASSES_def logging_def str_def)
  from verifyAndFix_driver [OF run]
  have "verifyAndFix ?v (FixAll True) () (str ''var y'') = (Inr ?r, ())"
    by (rule conjunct1)
  with run show ?thesis by (intro conjI)
qed

subsection \<open>The flag \<open>fixed\<close>\<close>

text \<open>
  C3, as stated, fails when fixes bring the text back: two fixes that undo each other
  (\<open>a\<close> to \<open>b\<close>, \<open>b\<close> to \<open>a\<close>) are applied in turn for ten passes, the output is the input
  and \<open>fixed\<close> is true.
\<close>

theorem fixed_without_change_counterexample:
  "verifyAndFix
     (\<lambda>s t. (Inr [\<lparr>ruleId = Some (str ''quotes''), fatal = None, severity = 2,
                     message = str ''m'', line = Some 1, column = Some 1, endLine = None,
                     endColumn = None, nodeType = None,
                     fix_prop = Some \<lparr>fix_range = (0, 1),
                       fix_text = (if t = str ''a'' then str ''b'' else str ''a'')\<rparr>,
                     suggestions = None, suppressions = None\<rparr>], s))
     (FixAll True) () (str ''a'') =
   (Inr \<lparr>fixed = True,
         messages = [\<lparr>ruleId = Some (str ''quotes''), fatal = None, severity = 2,
                     message = str ''m'', line = Some 1, column = Some 1, endLine = None,
                     endColumn = None, nodeType = None,
                     fix_prop = Some \<lparr>fix_range = (0, 1), fix_text = str ''b''\<rparr>,
                     suggestions = None, suppressions = None\<rparr>],
         output_text = str ''a''\<rparr>, ())"
  by (simp add: verifyAndFix_def verifyAndFix_finish_def verifyAndFix_loop.simps applyFixes_def
      stable_sort_def MAX_AUTOFIX_PASSES_def str_def)

text \<open>
  C3 (amended): when \<open>verifyAndFix\<close> returns, an output that differs from the input text
  comes with \<open>fixed\<close> true.  (The converse does not hold: \<open>fixed\<close> records that a fix was
  applied, not that the text changed.)
\<close>

theorem verifyAndFix_fixed_if_changed:
  assumes "verifyAndFix verify_fn shouldFix s text0 = (Inr r, s')"
  shows "output_text r \<noteq> text0 \<longrightarrow> fixed r"
proof -
  obtain res s1 where lp: "verifyAndFix_loop verify_fn shouldFix s False 0 text0 = (res, s1)"
    by (cases "verifyAndFix_loop verify_fn shouldFix s False 0 text0")
  with assms obtain L where res: "res = Inr L"
    by (cases res) (simp_all add: verifyAndFix_def)
  from lp res have loop: "verifyAndFix_loop verify_fn shouldFix s False 0 text0 = (Inr L, s1)"
    by simp
  with assms have fin: "verifyAndFix_finish verify_fn L s1 = (Inr r, s')"
    by (simp add: verifyAndFix_def)
  have shape: "fixed r = ls_fixed L \<and> output_text r = ls_currentText L"
  proof (cases "fixed (ls_fixedResult L)")
    case False
    with fin show ?thesis by (auto simp: verifyAndFix_finish_def)
  next
    case True
    obtain r2 s2 where v: "verify_fn s1 (ls_currentText L) = (r2, s2)"
      by (cases "verify_fn s1 (ls_currentText L)")
    with fin True show ?thesis
      by (cases r2) (auto simp: verifyAndFix_finish_def)
  qed
  from verifyAndFix_loop_exit [OF loop] have "\<not> ls_fixed L \<longrightarrow> ls_currentText L = text0"
    by blast
  with shape show ?thesis by blast
qed

theorem verifyAndFix_fixed_if_changed_witness:
  "verifyAndFix
     (\<lambda>s t. if take 3 t = str ''var''
            then (Inr [\<lparr>ruleId = Some (str ''no-var''), fatal = None, severity = 2,
                     message = str ''Unexpected var, use let or const instead.'',
                     line = Some 1, column = Some 1, endLine = None, endColumn = None,
                     nodeType = None,
                     fix_prop = Some \<lparr>fix_range = (0, 3), fix_text = str ''let''\<rparr>,
                     suggestions = None, suppressions = None\<rparr>], s)
            else (Inr [], s))
     (FixAll True) () (str ''var x'') =
     (Inr \<lparr>fixed = True, messages = [], output_text = str ''let x''\<rparr>, ())
   \<and> output_text \<lparr>fixed = True, messages = [], output_text = str ''let x''\<rparr> \<noteq> str ''var x''
   \<and> fixed \<lparr>fixed = True, messages = [], output_text = str ''let x''\<rparr>"
proof -
  let ?v = "\<lambda>(s :: unit) t. if take 3 t = str ''var''
            then (Inr [\<lparr>ruleId = Some (str ''no-var''), fatal = None, severity = 2,
                     message = str ''Unexpected var, use let or const instead.'',
                     line = Some 1, column = Some 1, endLine = None, endColumn = None,
                     nodeType = None,
                     fix_prop = Some \<lparr>fix_range = (0, 3), fix_text = str ''let''\<rparr>,
                     suggestions = None, suppressions = None\<rparr>] :: lint_exception + LintMessage list, s)
            else (Inr [], s)"
  let ?r = "\<lparr>fixed = True, messages = [], output_text = str ''let x''\<rparr>"
  have run: "verifyAndFix ?v (FixAll True) () (str ''var x'') = (Inr ?r, ())"
    by (simp add: verifyAndFix_def verifyAndFix_finish_def verifyAndFix_loop.simps applyFixes_def
        stable_sort_def MAX_AUTOFIX_PASSES_def str_def)
  have changed: "output_text ?r \<noteq> str ''var x''" by (simp add: str_def)
  from verifyAndFix_fixed_if_changed [OF run] changed have "fixed ?r" by blast
  with run changed show ?thesis by blast
qed

end
